theory Spec2Isabelle
  imports Main "HOL-Library.Word"
begin

unbundle bit_operations_syntax

section \<open>Memory: byte buffers, bounds and little-endian fields\<close>

text \<open>
  A buffer handed to the program (the data of an EFI variable, the contents of a key
  file, a block returned by \<^verbatim>\<open>malloc\<close>) is the list of its bytes.  A pointer into a
  buffer is the offset from its start.  C gives no meaning to an access outside the
  buffer, nor to an access through a pointer whose block has been freed, so every access
  is checked and such an access is a \<open>fault\<close>, which ends the run.  A run of the
  program therefore has one of three outcomes: it returns a value (\<open>Some (Inr v)\<close>), it
  faults (\<open>Some (Inl f)\<close>), or it never returns (\<open>None\<close>).  Allocation is taken to
  succeed.
\<close>

type_synonym byte = "8 word"
type_synonym bytes = "byte list"

datatype fault = ReadPastEnd nat | WritePastEnd nat | UseAfterFree

definition read_bytes :: "bytes \<Rightarrow> nat \<Rightarrow> nat \<Rightarrow> fault + bytes" where
  "read_bytes data off n =
     (if off + n \<le> length data then Inr (take n (drop off data))
      else Inl (ReadPastEnd (max off (length data))))"

definition write_bytes :: "bytes \<Rightarrow> nat \<Rightarrow> bytes \<Rightarrow> fault + bytes" where
  "write_bytes buf off bs =
     (if off + length bs \<le> length buf
      then Inr (take off buf @ bs @ drop (off + length bs) buf)
      else Inl (WritePastEnd (max off (length buf))))"

text \<open>
  Modelled from the spec: the headers \<^verbatim>\<open>efi.h\<close> and \<^verbatim>\<open>signature.h\<close> are not among the
  sources.  They declare the packed structures \<^verbatim>\<open>EFI_SIGNATURE_LIST\<close> (a 16-byte type
  GUID followed by the three 32-bit fields \<^verbatim>\<open>SignatureListSize\<close>,
  \<^verbatim>\<open>SignatureHeaderSize\<close> and \<^verbatim>\<open>SignatureSize\<close>) and \<^verbatim>\<open>EFI_SIGNATURE_DATA\<close>
  (a 16-byte owner GUID followed by the first byte of the signature data).  Fields are
  little-endian throughout.
\<close>

definition sizeof_efi_guid_t :: nat where
  "sizeof_efi_guid_t = 16"

definition sizeof_EFI_SIGNATURE_LIST :: nat where
  "sizeof_EFI_SIGNATURE_LIST = 28"

definition sizeof_EFI_SIGNATURE_DATA :: nat where
  "sizeof_EFI_SIGNATURE_DATA = 17"

definition le32 :: "bytes \<Rightarrow> 32 word" where
  "le32 bs =
     ucast (bs ! 0) OR push_bit 8 (ucast (bs ! 1)) OR
     push_bit 16 (ucast (bs ! 2)) OR push_bit 24 (ucast (bs ! 3))"

definition put_le32 :: "32 word \<Rightarrow> bytes" where
  "put_le32 v = [ucast v, ucast (drop_bit 8 v), ucast (drop_bit 16 v), ucast (drop_bit 24 v)]"

definition read_u32 :: "bytes \<Rightarrow> nat \<Rightarrow> fault + 32 word" where
  "read_u32 data off =
     (case read_bytes data off 4 of Inl f \<Rightarrow> Inl f | Inr bs \<Rightarrow> Inr (le32 bs))"

definition SignatureType :: "bytes \<Rightarrow> nat \<Rightarrow> fault + bytes" where
  "SignatureType data CertList = read_bytes data CertList sizeof_efi_guid_t"

definition SignatureListSize :: "bytes \<Rightarrow> nat \<Rightarrow> fault + 32 word" where
  "SignatureListSize data CertList = read_u32 data (CertList + 16)"

definition SignatureHeaderSize :: "bytes \<Rightarrow> nat \<Rightarrow> fault + 32 word" where
  "SignatureHeaderSize data CertList = read_u32 data (CertList + 20)"

definition SignatureSize :: "bytes \<Rightarrow> nat \<Rightarrow> fault + 32 word" where
  "SignatureSize data CertList = read_u32 data (CertList + 24)"

section \<open>The decoder \<^verbatim>\<open>build_mok_list\<close>\<close>

text \<open>
  A node of the decoded list: the size of the key and a pointer to its first byte, kept
  as an offset into the decoded buffer.  \<open>mok_data\<close> is what a later reader of the node
  (\<^verbatim>\<open>memcmp\<close>, \<^verbatim>\<open>write\<close>) finds there.
\<close>

record MokListNode =
  mok_size :: "32 word"
  mok :: nat

definition mok_data :: "bytes \<Rightarrow> MokListNode \<Rightarrow> fault + bytes" where
  "mok_data data node = read_bytes data (mok node) (unat (mok_size node))"

text \<open>
  One pass through the \<^verbatim>\<open>while\<close> loop of \<^verbatim>\<open>build_mok_list\<close>: the loop condition, then
  the body.  \<open>Leave\<close> is the exit of the loop; \<open>Advance node n\<close> is the end of the body
  (or a \<^verbatim>\<open>continue\<close>), having appended \<open>node\<close>, if any, and moved the cursor by \<open>n\<close>
  bytes.  The type GUIDs \<^verbatim>\<open>EfiCertX509Guid\<close> and \<^verbatim>\<open>EfiHashSha256Guid\<close> are constants of
  the missing headers and are parameters here; \<^verbatim>\<open>efi_guidcmp\<close> compares the 16 bytes.
\<close>

datatype pass = Leave | Advance "MokListNode option" nat

definition add_entry :: "bytes \<Rightarrow> nat \<Rightarrow> nat \<Rightarrow> fault + pass" where
  "add_entry data CertList lsz =
     (case SignatureHeaderSize data CertList of
        Inl f \<Rightarrow> Inl f
      | Inr hsz \<Rightarrow>
          (case SignatureSize data CertList of
             Inl f \<Rightarrow> Inl f
           | Inr ssz \<Rightarrow>
               Inr (Advance
                 (Some \<lparr>mok_size = ssz - 16,
                        mok = CertList + sizeof_EFI_SIGNATURE_LIST + unat hsz + sizeof_efi_guid_t\<rparr>)
                 lsz)))"

definition mok_pass :: "bytes \<Rightarrow> bytes \<Rightarrow> bytes \<Rightarrow> nat \<Rightarrow> nat \<Rightarrow> fault + pass" where
  "mok_pass CertType HashType data CertList dbsize =
     (if dbsize = 0 then Inr Leave
      else (case SignatureListSize data CertList of
        Inl f \<Rightarrow> Inl f
      | Inr lsz \<Rightarrow>
          if dbsize < unat lsz then Inr Leave
          else (case SignatureType data CertList of
            Inl f \<Rightarrow> Inl f
          | Inr ty \<Rightarrow>
              if ty \<noteq> CertType \<and> ty \<noteq> HashType then Inr (Advance None (unat lsz))
              else if ty = HashType then
                (case SignatureSize data CertList of
                   Inl f \<Rightarrow> Inl f
                 | Inr ssz \<Rightarrow>
                     if ssz \<noteq> 48 then Inr (Advance None (unat lsz))
                     else add_entry data CertList (unat lsz))
              else add_entry data CertList (unat lsz))))"

partial_function (option) mok_loop ::
  "bytes \<Rightarrow> bytes \<Rightarrow> bytes \<Rightarrow> nat \<Rightarrow> nat \<Rightarrow> MokListNode list \<Rightarrow> (fault + MokListNode list) option"
where
  "mok_loop CertType HashType data CertList dbsize list =
     (case mok_pass CertType HashType data CertList dbsize of
        Inl f \<Rightarrow> Some (Inl f)
      | Inr Leave \<Rightarrow> Some (Inr list)
      | Inr (Advance None n) \<Rightarrow>
          mok_loop CertType HashType data (CertList + n) (dbsize - n) list
      | Inr (Advance (Some node) n) \<Rightarrow>
          mok_loop CertType HashType data (CertList + n) (dbsize - n) (list @ [node]))"

declare mok_loop.simps [code]

definition build_mok_list ::
  "bytes \<Rightarrow> bytes \<Rightarrow> bytes \<Rightarrow> nat \<Rightarrow> (fault + MokListNode list) option" where
  "build_mok_list CertType HashType data data_size =
     mok_loop CertType HashType data 0 data_size []"


section \<open>The environment of the program\<close>

text \<open>
  The namespaces (vendor GUIDs) under which the program names EFI variables.  The
  variable store only compares them.
\<close>

datatype vendor_guid = ShimLock | EfiGlobalVariable | EfiImageSecurityDatabase

text \<open>
  Modelled from the spec: the macro \<^verbatim>\<open>EFI_GUID\<close> of \<^verbatim>\<open>efi.h\<close> is not among the
  sources.  It lays the 128-bit GUID out in 16 bytes, the first three fields
  little-endian.
\<close>

definition put_le16 :: "16 word \<Rightarrow> bytes" where
  "put_le16 v = [ucast v, ucast (drop_bit 8 v)]"

definition EFI_GUID ::
  "32 word \<Rightarrow> 16 word \<Rightarrow> 16 word \<Rightarrow> byte \<Rightarrow> byte \<Rightarrow> byte \<Rightarrow> byte \<Rightarrow> byte \<Rightarrow> byte \<Rightarrow> byte \<Rightarrow> byte
     \<Rightarrow> bytes" where
  "EFI_GUID a b c d0 d1 d2 d3 d4 d5 d6 d7 =
     put_le32 a @ put_le16 b @ put_le16 c @ [d0, d1, d2, d3, d4, d5, d6, d7]"

definition SHIM_LOCK_GUID :: bytes where
  "SHIM_LOCK_GUID =
     EFI_GUID 0x605dab50 0xe046 0x4300 0xab 0xb6 0x3d 0xd8 0x10 0xdd 0x8b 0x23"

definition PASSWORD_MAX :: int where
  "PASSWORD_MAX = 16"

definition PASSWORD_MIN :: int where
  "PASSWORD_MIN = 8"

definition SHA256_DIGEST_LENGTH :: nat where
  "SHA256_DIGEST_LENGTH = 32"

text \<open>
  What the program takes from outside its sources: the two type GUIDs of the missing
  headers, the digest function of the cryptographic library and the library's verdict on
  a DER blob (\<^verbatim>\<open>d2i_X509_bio\<close> returning a certificate or \<^verbatim>\<open>NULL\<close>).
\<close>

record externals =
  EfiCertX509Guid :: bytes
  EfiHashSha256Guid :: bytes
  SHA256 :: "bytes \<Rightarrow> bytes"
  d2i_X509_bio :: "bytes \<Rightarrow> bool"

text \<open>What the program writes to its standard output and standard error.\<close>

datatype message =
    Failed_to_unset string
  | Input_password int int
  | Newline
  | Password_should_be int int
  | Input_password_again
  | Password_doesnt_match
  | Abort
  | Failed_to_enroll_new_keys
  | Failed_to_delete_keys
  | Failed_to_write string
  | Failed_to_read string
  | Input_old_password
  | Invalid_password
  | Failed_to_get_file_status string
  | Failed_to_open string
  | Warning_not_a_valid_x509 string
  | Skip string

text \<open>
  The state of the world around one run: the EFI variables, the variables the firmware
  refuses to write, the files, the lines the operator will type (each without its final
  newline) and how many of them have been read, the messages printed so far, and the
  bytes found in memory that has been allocated and not yet written.
\<close>

record world =
  efivars :: "string \<times> vendor_guid \<rightharpoonup> bytes"
  edit_fails :: "string \<times> vendor_guid \<Rightarrow> bool"
  filesys :: "string \<rightharpoonup> bytes"
  tty :: "nat \<Rightarrow> string"
  tty_pos :: nat
  printed :: "message list"
  uninit :: "nat \<Rightarrow> byte"

definition printf :: "message \<Rightarrow> world \<Rightarrow> world" where
  "printf m w = w\<lparr>printed := printed w @ [m]\<rparr>"

definition malloc :: "world \<Rightarrow> nat \<Rightarrow> bytes" where
  "malloc w n = map (uninit w) [0..<n]"

text \<open>
  Modelled from the spec: the variable store (\<^verbatim>\<open>read_variable\<close>, \<^verbatim>\<open>edit_variable\<close>,
  \<^verbatim>\<open>test_variable\<close>, \<^verbatim>\<open>delete_variable\<close>, declared in the missing \<^verbatim>\<open>efi.h\<close>) reads a
  named variable or fails when there is none, writes a variable or fails with a write
  error that leaves the store as it was, and deletes a variable or fails when there is
  none.  The result is whether the call returned \<^verbatim>\<open>EFI_SUCCESS\<close>.
\<close>

definition read_variable :: "world \<Rightarrow> string \<Rightarrow> vendor_guid \<Rightarrow> bytes option" where
  "read_variable w VariableName VendorGuid = efivars w (VariableName, VendorGuid)"

definition test_variable :: "world \<Rightarrow> string \<Rightarrow> vendor_guid \<Rightarrow> bool" where
  "test_variable w VariableName VendorGuid = (efivars w (VariableName, VendorGuid) \<noteq> None)"

definition edit_variable :: "world \<Rightarrow> string \<Rightarrow> vendor_guid \<Rightarrow> bytes \<Rightarrow> bool \<times> world" where
  "edit_variable w VariableName VendorGuid Data =
     (if edit_fails w (VariableName, VendorGuid) then (False, w)
      else (True, w\<lparr>efivars := (efivars w)((VariableName, VendorGuid) \<mapsto> Data)\<rparr>))"

definition delete_variable :: "world \<Rightarrow> string \<Rightarrow> vendor_guid \<Rightarrow> bool \<times> world" where
  "delete_variable w VariableName VendorGuid =
     (if efivars w (VariableName, VendorGuid) = None then (False, w)
      else (True, w\<lparr>efivars := (efivars w)((VariableName, VendorGuid) := None)\<rparr>))"

definition test_and_delete_var :: "string \<Rightarrow> world \<Rightarrow> int \<times> world" where
  "test_and_delete_var var_name w =
     (if test_variable w var_name ShimLock then
        (case delete_variable w var_name ShimLock of
           (True, w') \<Rightarrow> (0, w')
         | (False, w') \<Rightarrow> (- 1, printf (Failed_to_unset var_name) w'))
      else (0, w))"

section \<open>Duplicate detection and eligibility\<close>

text \<open>
  \<^verbatim>\<open>memcmp (a, b, n) == 0\<close>: both ranges are read, so both must lie inside their
  buffers.
\<close>

definition memcmp_eq0 :: "bytes \<Rightarrow> nat \<Rightarrow> bytes \<Rightarrow> nat \<Rightarrow> nat \<Rightarrow> fault + bool" where
  "memcmp_eq0 a aoff b boff n =
     (case read_bytes a aoff n of
        Inl f \<Rightarrow> Inl f
      | Inr x \<Rightarrow> (case read_bytes b boff n of Inl f \<Rightarrow> Inl f | Inr y \<Rightarrow> Inr (x = y)))"

text \<open>
  The \<^verbatim>\<open>for\<close> loop of \<^verbatim>\<open>is_duplicate\<close> over the decoded nodes.  \<open>cert\<close> is the memory at
  the candidate's pointer, \<open>cert_size\<close> the size the caller passes with it.
\<close>

fun is_duplicate_loop :: "bytes \<Rightarrow> MokListNode list \<Rightarrow> bytes \<Rightarrow> 32 word \<Rightarrow> fault + bool" where
  "is_duplicate_loop data [] cert cert_size = Inr False"
| "is_duplicate_loop data (node # list) cert cert_size =
     (if mok_size node \<noteq> cert_size then is_duplicate_loop data list cert cert_size
      else (case memcmp_eq0 data (mok node) cert 0 (unat cert_size) of
              Inl f \<Rightarrow> Inl f
            | Inr True \<Rightarrow> Inr True
            | Inr False \<Rightarrow> is_duplicate_loop data list cert cert_size))"

definition is_duplicate ::
  "externals \<Rightarrow> world \<Rightarrow> bytes \<Rightarrow> 32 word \<Rightarrow> string \<Rightarrow> vendor_guid \<Rightarrow> (fault + bool) option" where
  "is_duplicate e w cert cert_size db_name guid =
     (if cert_size = 0 then Some (Inr False)
      else (case read_variable w db_name guid of
              None \<Rightarrow> Some (Inr False)
            | Some data \<Rightarrow>
                (case build_mok_list (EfiCertX509Guid e) (EfiHashSha256Guid e) data (length data) of
                   None \<Rightarrow> None
                 | Some (Inl f) \<Rightarrow> Some (Inl f)
                 | Some (Inr list) \<Rightarrow> Some (is_duplicate_loop data list cert cert_size))))"

text \<open>The operator \<^verbatim>\<open>||\<close> of C on two calls: the second is made only if the first returned 0.\<close>

definition or_else :: "(fault + bool) option \<Rightarrow> (fault + bool) option \<Rightarrow> (fault + bool) option" where
  "or_else a b =
     (case a of
        None \<Rightarrow> None
      | Some (Inl f) \<Rightarrow> Some (Inl f)
      | Some (Inr True) \<Rightarrow> Some (Inr True)
      | Some (Inr False) \<Rightarrow> b)"

definition negate :: "(fault + bool) option \<Rightarrow> (fault + bool) option" where
  "negate a = map_option (map_sum id Not) a"

definition is_valid_request ::
  "externals \<Rightarrow> world \<Rightarrow> bytes \<Rightarrow> 32 word \<Rightarrow> bool \<Rightarrow> (fault + bool) option" where
  "is_valid_request e w mok_ptr mok_sz import =
     (if import then
        negate
          (or_else (is_duplicate e w mok_ptr mok_sz ''PK'' EfiGlobalVariable)
          (or_else (is_duplicate e w mok_ptr mok_sz ''KEK'' EfiGlobalVariable)
          (or_else (is_duplicate e w mok_ptr mok_sz ''db'' EfiImageSecurityDatabase)
          (or_else (is_duplicate e w mok_ptr mok_sz ''MokListRT'' ShimLock)
                   (is_duplicate e w mok_ptr mok_sz ''MokNew'' ShimLock)))))
      else
        negate
          (or_else (negate (is_duplicate e w mok_ptr mok_sz ''MokListRT'' ShimLock))
                   (is_duplicate e w mok_ptr mok_sz ''MokDel'' ShimLock)))"


section \<open>The password and the authentication tag\<close>

text \<open>
  A C string ends at its first NUL: \<^verbatim>\<open>strlen\<close> and \<^verbatim>\<open>strcmp\<close> see \<open>cstr s\<close> of the
  characters \<open>s\<close> of a line.
\<close>

definition cstr :: "string \<Rightarrow> string" where
  "cstr s = takeWhile (\<lambda>c. c \<noteq> CHR 0x00) s"

text \<open>
  \<^verbatim>\<open>read_hidden_line\<close>: the next line the operator types, its newline removed, and its
  length.  The terminal is an external collaborator; switching the echo off and on is not
  part of the model.
\<close>

definition read_hidden_line :: "world \<Rightarrow> string \<times> int \<times> world" where
  "read_hidden_line w =
     (tty w (tty_pos w), int (length (tty w (tty_pos w))), w\<lparr>tty_pos := Suc (tty_pos w)\<rparr>)"

text \<open>
  The first loop of \<^verbatim>\<open>get_password\<close>: up to three attempts at a password of an
  acceptable length.  It returns \<^verbatim>\<open>fail\<close>, \<^verbatim>\<open>password_1\<close> and \<^verbatim>\<open>len_1\<close>.
\<close>

function get_password_first ::
  "int \<Rightarrow> int \<Rightarrow> nat \<Rightarrow> string option \<Rightarrow> int \<Rightarrow> world \<Rightarrow> nat \<times> string option \<times> int \<times> world" where
  "get_password_first mn mx fail password_1 len_1 w =
     (if fail < 3 then
        (case read_hidden_line (printf (Input_password mn mx) w) of
           (line, n, w1) \<Rightarrow>
             if n > mx \<or> n < mn
             then get_password_first mn mx (fail + 1) (Some line) n
                    (printf (Password_should_be mn mx) (printf Newline w1))
             else (fail, Some line, n, printf Newline w1))
      else (fail, password_1, len_1, w))"
  by pat_completeness auto
termination
  by (relation "measure (\<lambda>(mn, mx, fail, password_1, len_1, w). 3 - fail)") auto

declare get_password_first.simps [simp del]

text \<open>The second loop: up to three attempts at typing the same password again.\<close>

function get_password_again :: "string \<Rightarrow> int \<Rightarrow> nat \<Rightarrow> world \<Rightarrow> nat \<times> world" where
  "get_password_again password_1 len_1 fail w =
     (if fail < 3 then
        (case read_hidden_line (printf Input_password_again w) of
           (password_2, len_2, w1) \<Rightarrow>
             if len_1 \<noteq> len_2 \<or> cstr password_1 \<noteq> cstr password_2
             then get_password_again password_1 len_1 (fail + 1)
                    (printf Password_doesnt_match (printf Newline w1))
             else (fail, printf Newline w1))
      else (fail, w))"
  by pat_completeness auto
termination
  by (relation "measure (\<lambda>(password_1, len_1, fail, w). 3 - fail)") auto

declare get_password_again.simps [simp del]

text \<open>
  \<^verbatim>\<open>get_password\<close> returns 0 and sets \<^verbatim>\<open>*password\<close> and \<^verbatim>\<open>*len\<close> (here \<open>Some\<close> of the
  two), or returns -1 and leaves them alone (here \<open>None\<close>).
\<close>

definition get_password :: "int \<Rightarrow> int \<Rightarrow> world \<Rightarrow> (string \<times> int) option \<times> world" where
  "get_password mn mx w =
     (case get_password_first mn mx 0 None 0 w of
        (fail, password_1, len_1, w1) \<Rightarrow>
          if fail \<ge> 3 then (None, w1)
          else (case password_1 of
                  None \<Rightarrow> (None, w1)
                | Some p1 \<Rightarrow>
                    (case get_password_again p1 len_1 0 w1 of
                       (fail2, w2) \<Rightarrow> if fail2 \<ge> 3 then (None, w2) else (Some (p1, len_1), w2))))"

text \<open>
  Modelled from the spec: \<^verbatim>\<open>efichar_from_char\<close> (declared in the missing \<^verbatim>\<open>efi.h\<close>)
  re-encodes the password as UTF-16LE into a buffer of \<open>dest_len\<close> bytes, at most
  \<open>dest_len / 2 - 1\<close> code units of it and a terminating zero unit, and returns the number
  of bytes of the re-encoded password (\<^verbatim>\<open>generate_auth\<close> takes it as \<^verbatim>\<open>efichar_len\<close>, the
  number of bytes to digest).  With the 17-unit buffer of \<^verbatim>\<open>generate_auth\<close> the budget
  is 16 code units.  A character becomes the code unit of the same value.
\<close>

definition sizeof_efi_char16_t :: nat where
  "sizeof_efi_char16_t = 2"

definition efichar_from_char :: "string \<Rightarrow> nat \<Rightarrow> bytes \<times> nat" where
  "efichar_from_char src dest_len =
     (let units = take (dest_len div sizeof_efi_char16_t - 1) (cstr src)
      in (concat (map (\<lambda>c. [word_of_nat (of_char c), 0]) units) @ [0, 0],
          length units * sizeof_efi_char16_t))"

text \<open>
  The digest context of the cryptographic library holds the bytes fed to it so far;
  \<^verbatim>\<open>SHA256_Final\<close> is the digest of all of them.
\<close>

definition SHA256_Init :: bytes where
  "SHA256_Init = []"

definition SHA256_Update :: "bytes \<Rightarrow> bytes \<Rightarrow> nat \<Rightarrow> fault + bytes" where
  "SHA256_Update ctx data len =
     (case read_bytes data 0 len of Inl f \<Rightarrow> Inl f | Inr bs \<Rightarrow> Inr (ctx @ bs))"

definition SHA256_Final :: "externals \<Rightarrow> bytes \<Rightarrow> bytes" where
  "SHA256_Final e ctx = SHA256 e ctx"

text \<open>
  \<^verbatim>\<open>generate_auth\<close>.  \<open>new_list\<close> and \<open>password\<close> are pointers that may be \<^verbatim>\<open>NULL\<close>;
  \<open>auth\<close> is the caller's array (never \<^verbatim>\<open>NULL\<close> at a call of the program), returned
  with the digest in it.
\<close>

definition generate_auth ::
  "externals \<Rightarrow> bytes option \<Rightarrow> nat \<Rightarrow> string option \<Rightarrow> int \<Rightarrow> bytes \<Rightarrow> fault + (int \<times> bytes)" where
  "generate_auth e new_list list_len password pw_len auth =
     (case password of
        None \<Rightarrow> Inr (- 1, auth)
      | Some pw \<Rightarrow>
          (case efichar_from_char pw (nat (PASSWORD_MAX + 1) * sizeof_efi_char16_t) of
             (efichar_pass, efichar_len) \<Rightarrow>
               (case (case new_list of
                        None \<Rightarrow> Inr SHA256_Init
                      | Some l \<Rightarrow> SHA256_Update SHA256_Init l list_len) of
                  Inl f \<Rightarrow> Inl f
                | Inr ctx \<Rightarrow>
                    (case SHA256_Update ctx efichar_pass efichar_len of
                       Inl f \<Rightarrow> Inl f
                     | Inr ctx' \<Rightarrow> Inr (0, SHA256_Final e ctx')))))"

text \<open>
  The loop of \<^verbatim>\<open>verify_old_req\<close>: up to three attempts at the password of the pending
  request, each compared through its tag with the stored one.  After a line of
  unacceptable length the loop frees \<^verbatim>\<open>password\<close> and leaves the pointer as it is;
  \<open>password_freed\<close> says that the pointer is in that state.  The next pass hands the
  pointer to \<^verbatim>\<open>getline\<close> again, which stores the line through it: a use of freed
  memory.  A pointer that is \<^verbatim>\<open>NULL\<close> or points to the line of the pass before is
  what \<^verbatim>\<open>getline\<close> expects.
\<close>

function verify_old_req_loop ::
  "externals \<Rightarrow> bytes \<Rightarrow> nat \<Rightarrow> bytes \<Rightarrow> nat \<Rightarrow> bool \<Rightarrow> world \<Rightarrow> fault + (int \<times> world)" where
  "verify_old_req_loop e old_req old_req_size req_auth fail password_freed w =
     (if fail < 3 then
        (if password_freed then Inl UseAfterFree
         else
           (case read_hidden_line (printf Input_old_password w) of
              (password, pw_len, w1) \<Rightarrow>
                if pw_len > PASSWORD_MAX \<or> pw_len < PASSWORD_MIN
                then verify_old_req_loop e old_req old_req_size req_auth (fail + 1) True
                       (printf Invalid_password (printf Newline w1))
                else (case generate_auth e (Some old_req) old_req_size (Some password) pw_len
                             (malloc w SHA256_DIGEST_LENGTH) of
                        Inl f \<Rightarrow> Inl f
                      | Inr (r, auth) \<Rightarrow>
                          (case memcmp_eq0 auth 0 req_auth 0 SHA256_DIGEST_LENGTH of
                             Inl f \<Rightarrow> Inl f
                           | Inr True \<Rightarrow> Inr (1, printf Newline w1)
                           | Inr False \<Rightarrow>
                               verify_old_req_loop e old_req old_req_size req_auth (fail + 1)
                                 False (printf Newline w1)))))
      else Inr (0, w))"
  by pat_completeness auto
termination
  by (relation "measure (\<lambda>(e, old_req, old_req_size, req_auth, fail, password_freed, w). 3 - fail)")
     auto

declare verify_old_req_loop.simps [simp del]

text \<open>
  \<^verbatim>\<open>verify_old_req\<close>: without a stored tag the request cannot be verified (0); otherwise
  the loop decides, starting with \<^verbatim>\<open>password\<close> at \<^verbatim>\<open>NULL\<close>.
\<close>

definition verify_old_req ::
  "externals \<Rightarrow> bytes \<Rightarrow> nat \<Rightarrow> bool \<Rightarrow> world \<Rightarrow> fault + (int \<times> world)" where
  "verify_old_req e old_req old_req_size import w =
     (let auth_name = (if import then ''MokAuth'' else ''MokDelAuth'')
      in (case read_variable w auth_name ShimLock of
            None \<Rightarrow> Inr (0, printf (Failed_to_read auth_name) w)
          | Some req_auth \<Rightarrow> verify_old_req_loop e old_req old_req_size req_auth 0 False w))"


section \<open>The request builder\<close>

text \<open>
  The conversions between \<^verbatim>\<open>unsigned long\<close> (64 bits) and \<^verbatim>\<open>int\<close> (32 bits) at the
  call of \<^verbatim>\<open>update_request\<close> and inside it.
\<close>

definition int_of_ulong :: "nat \<Rightarrow> int" where
  "int_of_ulong n = sint (word_of_nat n :: 32 word)"

definition ulong_of_int :: "int \<Rightarrow> nat" where
  "ulong_of_int i = nat (i mod 2 ^ 64)"

text \<open>
  \<^verbatim>\<open>update_request\<close>: ask for a new password, derive the tag, write the request variable
  (or delete it when there is no list), then write the tag variable; if that last write
  fails the request variable is deleted again.
\<close>

definition update_request ::
  "externals \<Rightarrow> bytes option \<Rightarrow> int \<Rightarrow> bool \<Rightarrow> world \<Rightarrow> fault + (int \<times> world)" where
  "update_request e new_list list_len import w =
     (let req_name = (if import then ''MokNew'' else ''MokDel'');
          auth_name = (if import then ''MokAuth'' else ''MokDelAuth'')
      in (case get_password PASSWORD_MIN PASSWORD_MAX w of
            (None, w1) \<Rightarrow> Inr (- 1, printf Abort w1)
          | (Some (password, pw_len), w1) \<Rightarrow>
              (case generate_auth e new_list (ulong_of_int list_len) (Some password) pw_len
                      (malloc w SHA256_DIGEST_LENGTH) of
                 Inl f \<Rightarrow> Inl f
               | Inr (r, auth) \<Rightarrow>
                   (case (case new_list of
                            Some l \<Rightarrow>
                              (case read_bytes l 0 (ulong_of_int list_len) of
                                 Inl f \<Rightarrow> Inl f
                               | Inr Data \<Rightarrow> Inr (edit_variable w1 req_name ShimLock Data))
                          | None \<Rightarrow> Inr (True, snd (test_and_delete_var req_name w1))) of
                      Inl f \<Rightarrow> Inl f
                    | Inr (False, w2) \<Rightarrow>
                        Inr (- 1, printf (if import then Failed_to_enroll_new_keys
                                          else Failed_to_delete_keys) w2)
                    | Inr (True, w2) \<Rightarrow>
                        (case edit_variable w2 auth_name ShimLock auth of
                           (False, w3) \<Rightarrow>
                             Inr (- 1, snd (test_and_delete_var req_name
                                              (printf (Failed_to_write auth_name) w3)))
                         | (True, w3) \<Rightarrow> Inr (0, w3))))))"

text \<open>
  The first loop of \<^verbatim>\<open>issue_mok_request\<close>: \<^verbatim>\<open>stat\<close> of every file.  It returns the
  sizes, each cut to 32 bits, and their sum, or the file whose status could not be read.
\<close>

fun stat_loop :: "world \<Rightarrow> string list \<Rightarrow> 32 word list \<Rightarrow> nat \<Rightarrow> string + 32 word list \<times> nat" where
  "stat_loop w [] sizes list_size = Inr (sizes, list_size)"
| "stat_loop w (file # files) sizes list_size =
     (case filesys w file of
        None \<Rightarrow> Inl file
      | Some content \<Rightarrow>
          stat_loop w files (sizes @ [word_of_nat (length content)]) (list_size + length content))"

text \<open>A sequence of stores into a buffer, each at its own offset.\<close>

fun write_fields :: "bytes \<Rightarrow> (nat \<times> bytes) list \<Rightarrow> fault + bytes" where
  "write_fields buf [] = Inr buf"
| "write_fields buf ((off, bs) # stores) =
     (case write_bytes buf off bs of Inl f \<Rightarrow> Inl f | Inr buf' \<Rightarrow> write_fields buf' stores)"

text \<open>
  The second loop: for every file the header of a signature list is written at \<open>ptr\<close>,
  the file is read behind it, and \<open>ptr\<close> moves past the record if the key is eligible and
  back to the start of the record if it is not.  The loop ends with the buffer and
  \<^verbatim>\<open>real_size\<close>, or (\<open>None\<close>) at the label \<^verbatim>\<open>error\<close>.  The call of \<^verbatim>\<open>read\<close>
  is taken to transfer the bytes it is asked for, as far as the file has them; a system
  that transfers less in one call (Linux: at most \<open>0x7ffff000\<close> bytes) sends the
  program to \<^verbatim>\<open>Failed to read\<close> for a larger file.
\<close>

fun fill_loop ::
  "externals \<Rightarrow> bool \<Rightarrow> (string \<times> 32 word) list \<Rightarrow> bytes \<Rightarrow> nat \<Rightarrow> nat \<Rightarrow> world
     \<Rightarrow> (fault + world \<times> (bytes \<times> nat) option) option" where
  "fill_loop e import [] new_list ptr real_size w = Some (Inr (w, Some (new_list, real_size)))"
| "fill_loop e import ((file, sz) # files) new_list ptr real_size w =
     (case write_fields new_list
             [(ptr, EfiCertX509Guid e),
              (ptr + 16, put_le32 (sz + word_of_nat sizeof_EFI_SIGNATURE_LIST
                                      + word_of_nat sizeof_EFI_SIGNATURE_DATA - 1)),
              (ptr + 20, put_le32 0),
              (ptr + 24, put_le32 (sz + word_of_nat sizeof_efi_guid_t)),
              (ptr + sizeof_EFI_SIGNATURE_LIST, SHIM_LOCK_GUID)] of
        Inl f \<Rightarrow> Some (Inl f)
      | Inr buf1 \<Rightarrow>
          (case filesys w file of
             None \<Rightarrow> Some (Inr (printf (Failed_to_open file) w, None))
           | Some content \<Rightarrow>
               (case write_bytes buf1 (ptr + sizeof_EFI_SIGNATURE_LIST + sizeof_efi_guid_t)
                       (take (unat sz) content) of
                  Inl f \<Rightarrow> Some (Inl f)
                | Inr buf2 \<Rightarrow>
                    if length (take (unat sz) content) \<noteq> unat sz
                    then Some (Inr (printf (Failed_to_read file) w, None))
                    else
                      (let w1 = (if d2i_X509_bio e (take (unat sz) content) then w
                                 else printf (Warning_not_a_valid_x509 file) w)
                       in (case is_valid_request e w1
                                  (drop (ptr + sizeof_EFI_SIGNATURE_LIST + sizeof_efi_guid_t) buf2)
                                  sz import of
                             None \<Rightarrow> None
                           | Some (Inl f) \<Rightarrow> Some (Inl f)
                           | Some (Inr True) \<Rightarrow>
                               fill_loop e import files buf2
                                 (ptr + sizeof_EFI_SIGNATURE_LIST + sizeof_efi_guid_t + unat sz)
                                 (real_size + unat sz + sizeof_EFI_SIGNATURE_LIST + sizeof_efi_guid_t)
                                 w1
                           | Some (Inr False) \<Rightarrow>
                               fill_loop e import files buf2 ptr real_size
                                 (printf (Skip file) w1))))))"

text \<open>
  The rest of \<^verbatim>\<open>issue_mok_request\<close> after the second loop: nothing to do when no key is
  eligible; otherwise authenticate a pending request and append it, and commit.
\<close>

definition commit_request ::
  "externals \<Rightarrow> bool \<Rightarrow> bytes option \<Rightarrow> bytes \<Rightarrow> nat \<Rightarrow> world \<Rightarrow> fault + (int \<times> world)" where
  "commit_request e import old_req new_list real_size w =
     (if real_size = 0 then Inr (0, w)
      else (case (case old_req of
                    None \<Rightarrow> Inr (Some (new_list, real_size), w)
                  | Some old \<Rightarrow>
                      (case verify_old_req e old (length old) import w of
                         Inl f \<Rightarrow> Inl f
                       | Inr (ok, w1) \<Rightarrow>
                           if ok = 0 then Inr (None, w1)
                           else (case write_bytes new_list real_size old of
                                   Inl f \<Rightarrow> Inl f
                                 | Inr merged \<Rightarrow>
                                     Inr (Some (merged, real_size + length old), w1)))) of
              Inl f \<Rightarrow> Inl f
            | Inr (None, w1) \<Rightarrow> Inr (- 1, w1)
            | Inr (Some (merged, real_size'), w1) \<Rightarrow>
                (case update_request e (Some merged) (int_of_ulong real_size') import w1 of
                   Inl f \<Rightarrow> Inl f
                 | Inr (r, w2) \<Rightarrow> if r < 0 then Inr (- 1, w2) else Inr (0, w2))))"

text \<open>
  The first part of \<^verbatim>\<open>issue_mok_request\<close>, up to the end of the second loop: the sizes
  of the files, the pending request if there is one, the allocation of \<^verbatim>\<open>new_list\<close>
  and the second loop.
\<close>

definition collect_request ::
  "externals \<Rightarrow> string list \<Rightarrow> bool \<Rightarrow> world \<Rightarrow> (fault + world \<times> (bytes \<times> nat) option) option" where
  "collect_request e files import w =
     (case stat_loop w files [] 0 of
        Inl file \<Rightarrow> Some (Inr (printf (Failed_to_get_file_status file) w, None))
      | Inr (sizes, list_size) \<Rightarrow>
          (let req_name = (if import then ''MokNew'' else ''MokDel'');
               list_size' =
                 list_size + sizeof_EFI_SIGNATURE_LIST * length files
                   + sizeof_efi_guid_t * length files
                   + (case read_variable w req_name ShimLock of
                        None \<Rightarrow> 0
                      | Some old \<Rightarrow> length old)
           in fill_loop e import (zip files sizes) (malloc w list_size') 0 0 w))"

definition issue_mok_request ::
  "externals \<Rightarrow> string list option \<Rightarrow> bool \<Rightarrow> world \<Rightarrow> (fault + int \<times> world) option" where
  "issue_mok_request e files import w =
     (case files of
        None \<Rightarrow> Some (Inr (- 1, w))
      | Some fs \<Rightarrow>
          (case collect_request e fs import w of
             None \<Rightarrow> None
           | Some (Inl f) \<Rightarrow> Some (Inl f)
           | Some (Inr (w1, None)) \<Rightarrow> Some (Inr (- 1, w1))
           | Some (Inr (w1, Some (new_list, real_size))) \<Rightarrow>
               Some (commit_request e import
                       (read_variable w (if import then ''MokNew'' else ''MokDel'') ShimLock)
                       new_list real_size w1)))"


section \<open>Notions used in the statements\<close>

text \<open>The UTF-16LE encoding of a string of 8-bit characters: two bytes for each.\<close>

definition utf16le :: "string \<Rightarrow> bytes" where
  "utf16le s = concat (map (\<lambda>c. [word_of_nat (of_char c), 0]) s)"

text \<open>
  Modelled from the spec (sections 3 and 4.2), for comparison with the decoder of the
  program: a signature list is a header (type GUID, total size, size of the extra header,
  size of one entry), the extra header, and one or more entries of one size, each an owner
  GUID followed by its payload.  The sizes are 32-bit fields, so a list is shorter than
  \<open>2\<^sup>3\<^sup>2\<close> bytes.  A signature database is the concatenation of its lists.
\<close>

record signature_list =
  sl_type :: bytes
  sl_header :: bytes
  sl_entries :: "(bytes \<times> bytes) list"

definition entry_size :: "signature_list \<Rightarrow> nat" where
  "entry_size r = 16 + length (snd (hd (sl_entries r)))"

definition sl_size :: "signature_list \<Rightarrow> nat" where
  "sl_size r = 28 + length (sl_header r) + length (sl_entries r) * entry_size r"

definition well_formed :: "signature_list \<Rightarrow> bool" where
  "well_formed r =
     (length (sl_type r) = 16 \<and> sl_entries r \<noteq> [] \<and>
      list_all (\<lambda>(owner, payload). length owner = 16 \<and> 16 + length payload = entry_size r)
        (sl_entries r) \<and>
      sl_size r < 2 ^ 32)"

definition encode_list :: "signature_list \<Rightarrow> bytes" where
  "encode_list r =
     sl_type r @ put_le32 (word_of_nat (sl_size r)) @ put_le32 (word_of_nat (length (sl_header r))) @
     put_le32 (word_of_nat (entry_size r)) @ sl_header r @
     concat (map (\<lambda>(owner, payload). owner @ payload) (sl_entries r))"

definition encode_database :: "signature_list list \<Rightarrow> bytes" where
  "encode_database rs = concat (map encode_list rs)"

text \<open>
  The key entries of a list, in the words of the spec: the payloads of all the entries of
  a list of X.509 type, or of SHA-256 type with entries of 48 bytes; none for any other
  list.  \<open>contains\<close> is the membership test of section 4.2 of the spec: some key entry of
  the database is the candidate, byte for byte.
\<close>

definition recognised :: "externals \<Rightarrow> signature_list \<Rightarrow> bool" where
  "recognised e r =
     (sl_type r = EfiCertX509Guid e \<or> sl_type r = EfiHashSha256Guid e \<and> entry_size r = 48)"

definition key_entries :: "externals \<Rightarrow> signature_list \<Rightarrow> bytes list" where
  "key_entries e r = (if recognised e r then map snd (sl_entries r) else [])"

definition contains :: "externals \<Rightarrow> signature_list list \<Rightarrow> bytes \<Rightarrow> bool" where
  "contains e rs candidate = (candidate \<in> set (concat (map (key_entries e) rs)))"

text \<open>
  The same test on the first entry of every list only, which is what the program reads
  of a list.
\<close>

definition heads_contain :: "externals \<Rightarrow> signature_list list \<Rightarrow> bytes \<Rightarrow> bool" where
  "heads_contain e rs candidate =
     (candidate \<in> set (concat (map (\<lambda>r. take 1 (key_entries e r)) rs)))"

text \<open>Every list of the database has one entry, as the lists have that the program writes.\<close>

definition single_entries :: "signature_list list \<Rightarrow> bool" where
  "single_entries rs = list_all (\<lambda>r. length (sl_entries r) = 1) rs"

text \<open>
  The named variable holds the database \<open>rs\<close>, every list of it well formed.  A variable
  that does not exist holds the empty database.
\<close>

definition holds :: "world \<Rightarrow> string \<Rightarrow> vendor_guid \<Rightarrow> signature_list list \<Rightarrow> bool" where
  "holds w name guid rs =
     ((case efivars w (name, guid) of
         None \<Rightarrow> rs = []
       | Some data \<Rightarrow> data = encode_database rs) \<and>
      list_all well_formed rs)"

text \<open>
  The nodes that the decoder builds on a database whose first list starts at \<open>p\<close>: one
  for the first entry of every recognised list.
\<close>

fun nodes_of :: "externals \<Rightarrow> nat \<Rightarrow> signature_list list \<Rightarrow> MokListNode list" where
  "nodes_of e p [] = []"
| "nodes_of e p (r # rs) =
     (if recognised e r
      then [\<lparr>mok_size = word_of_nat (entry_size r - 16), mok = p + 28 + length (sl_header r) + 16\<rparr>]
      else []) @
     nodes_of e (p + sl_size r) rs"

text \<open>
  The signature list that the request builder writes for one key: an X.509 list of one
  entry owned by the program's GUID, with no signature header.
\<close>

definition x509_list :: "externals \<Rightarrow> bytes \<Rightarrow> bytes" where
  "x509_list e blob =
     EfiCertX509Guid e @ put_le32 (word_of_nat (length blob) + 44) @ put_le32 0 @
     put_le32 (word_of_nat (length blob) + 16) @ SHIM_LOCK_GUID @ blob"

text \<open>
  The program only talked between two states of the world: it printed and it read lines
  of the terminal, and changed nothing else.
\<close>

definition talked :: "world \<Rightarrow> world \<Rightarrow> bool" where
  "talked w w' = (\<exists>n ms. w' = w\<lparr>tty_pos := tty_pos w + n, printed := printed w @ ms\<rparr>)"

text \<open>
  What the program knows of a file: its contents, its size as \<^verbatim>\<open>stat\<close> gives it cut to
  32 bits, and the bytes it reads with that size (the whole file when it is shorter than
  4 GiB).  A file is eligible when \<^verbatim>\<open>is_valid_request\<close> returns 1 on it, and judged when
  \<^verbatim>\<open>is_valid_request\<close> returns at all.
\<close>

definition file_contents :: "world \<Rightarrow> string \<Rightarrow> bytes" where
  "file_contents w file = (case filesys w file of None \<Rightarrow> [] | Some content \<Rightarrow> content)"

definition file_size32 :: "world \<Rightarrow> string \<Rightarrow> 32 word" where
  "file_size32 w file = word_of_nat (length (file_contents w file))"

definition key_read :: "world \<Rightarrow> string \<Rightarrow> bytes" where
  "key_read w file = take (unat (file_size32 w file)) (file_contents w file)"

definition eligible :: "externals \<Rightarrow> world \<Rightarrow> bool \<Rightarrow> string \<Rightarrow> bool" where
  "eligible e w import file =
     (is_valid_request e w (key_read w file) (file_size32 w file) import = Some (Inr True))"

definition judged :: "externals \<Rightarrow> world \<Rightarrow> bool \<Rightarrow> string \<Rightarrow> bool" where
  "judged e w import file =
     (case is_valid_request e w (key_read w file) (file_size32 w file) import of
        Some (Inr b) \<Rightarrow> True
      | _ \<Rightarrow> False)"

fun notices :: "externals \<Rightarrow> world \<Rightarrow> bool \<Rightarrow> string list \<Rightarrow> message list" where
  "notices e w import [] = []"
| "notices e w import (file # files) =
     (if d2i_X509_bio e (key_read w file) then [] else [Warning_not_a_valid_x509 file]) @
     (if eligible e w import file then [] else [Skip file]) @
     notices e w import files"

definition request_bytes :: "externals \<Rightarrow> world \<Rightarrow> bool \<Rightarrow> string list \<Rightarrow> bytes" where
  "request_bytes e w import files =
     concat (map (\<lambda>file. x509_list e (key_read w file)) (filter (eligible e w import) files))"

text \<open>
  The lines the operator types.  A line is acceptable as a password when its length is
  between 8 and 16.  A line authenticates a pending request when it is acceptable and its
  tag over the request is the stored one; it is a wrong guess when it is acceptable and
  its tag differs.  A line repeats a password when \<^verbatim>\<open>get_password\<close> finds them equal.
\<close>

definition acceptable :: "string \<Rightarrow> bool" where
  "acceptable line = (PASSWORD_MIN \<le> int (length line) \<and> int (length line) \<le> PASSWORD_MAX)"


definition wrong_guess :: "externals \<Rightarrow> bytes \<Rightarrow> bytes \<Rightarrow> string \<Rightarrow> bool" where
  "wrong_guess e old_req tag line =
     (acceptable line \<and> SHA256 e (old_req @ utf16le (take 16 (cstr line))) \<noteq> tag)"

definition repeats :: "string \<Rightarrow> string \<Rightarrow> bool" where
  "repeats pw line = (length line = length pw \<and> cstr line = cstr pw)"


text \<open>
  From line \<open>p\<close> on, the operator chooses the password \<open>pw\<close>: after \<open>j\<close> lines that are
  not acceptable comes \<open>pw\<close>, and after \<open>i\<close> lines that do not repeat it comes one that
  does, \<open>j\<close> and \<open>i\<close> less than 3.
\<close>

definition chooses :: "world \<Rightarrow> nat \<Rightarrow> nat \<Rightarrow> nat \<Rightarrow> string \<Rightarrow> bool" where
  "chooses w p j i pw =
     (j < 3 \<and> i < 3 \<and> (\<forall>x\<in>set [0..<j]. \<not> acceptable (tty w (p + x))) \<and>
      tty w (p + j) = pw \<and> acceptable pw \<and>
      (\<forall>x\<in>set [0..<i]. \<not> repeats pw (tty w (p + j + 1 + x))) \<and>
      repeats pw (tty w (p + j + 1 + i)))"




text \<open>The run ended with the fault \<open>f\<close>.\<close>

definition faults :: "(fault + int \<times> world) option \<Rightarrow> fault \<Rightarrow> bool" where
  "faults run f = (case run of Some (Inl f') \<Rightarrow> f' = f | _ \<Rightarrow> False)"


text \<open>
  Reading the key of every node of a decoded list, as \<^verbatim>\<open>export_moks\<close> and \<^verbatim>\<open>list_keys\<close>
  do with \<^verbatim>\<open>list[i].mok\<close> and \<^verbatim>\<open>list[i].mok_size\<close>.
\<close>

fun read_keys :: "bytes \<Rightarrow> MokListNode list \<Rightarrow> fault + bytes list" where
  "read_keys data [] = Inr []"
| "read_keys data (node # list) =
     (case mok_data data node of
        Inl f \<Rightarrow> Inl f
      | Inr key \<Rightarrow> (case read_keys data list of Inl f \<Rightarrow> Inl f | Inr keys \<Rightarrow> Inr (key # keys)))"

text \<open>
  Encoding, then decoding: the keys that \<^verbatim>\<open>build_mok_list\<close> finds in the first
  \<^verbatim>\<open>real_size\<close> bytes of the buffer that the request builder has filled.  The result is
  \<open>Some (Inr None)\<close> when the builder left for its label \<^verbatim>\<open>error\<close>.
\<close>

definition round_trip ::
  "externals \<Rightarrow> string list \<Rightarrow> bool \<Rightarrow> world \<Rightarrow> (fault + bytes list option) option" where
  "round_trip e files import w =
     (case collect_request e files import w of
        None \<Rightarrow> None
      | Some (Inl f) \<Rightarrow> Some (Inl f)
      | Some (Inr (w', None)) \<Rightarrow> Some (Inr None)
      | Some (Inr (w', Some (new_list, real_size))) \<Rightarrow>
          (case build_mok_list (EfiCertX509Guid e) (EfiHashSha256Guid e)
                  (take real_size new_list) real_size of
             None \<Rightarrow> None
           | Some (Inl f) \<Rightarrow> Some (Inl f)
           | Some (Inr list) \<Rightarrow>
               (case read_keys (take real_size new_list) list of
                  Inl f \<Rightarrow> Some (Inl f)
                | Inr keys \<Rightarrow> Some (Inr (Some keys)))))"

text \<open>The nodes of a sequence of signature lists of one key each, the first list at \<open>p\<close>.\<close>

fun nodes_at :: "nat \<Rightarrow> bytes list \<Rightarrow> MokListNode list" where
  "nodes_at p [] = []"
| "nodes_at p (key # keys) =
     \<lparr>mok_size = word_of_nat (length key), mok = p + 44\<rparr> # nodes_at (p + 44 + length key) keys"

section \<open>Concrete inputs\<close>

text \<open>
  The inputs at which the theorems below are instantiated.  The two type GUIDs are the
  ones the UEFI specification assigns to X.509 certificates and to SHA-256 hashes; the
  digest is a stand-in with 32-byte results.
\<close>

definition uefi_externals :: externals where
  "uefi_externals =
     \<lparr>EfiCertX509Guid =
        EFI_GUID 0xa5c059a1 0x94e4 0x4aa7 0x87 0xb5 0xab 0x15 0x5c 0x2b 0xf0 0x72,
      EfiHashSha256Guid =
        EFI_GUID 0xc1c41626 0x504c 0x4092 0xac 0xa9 0x41 0xf9 0x36 0x93 0x43 0x28,
      SHA256 = (\<lambda>bs. take 32 (rev bs @ replicate 32 0)),
      d2i_X509_bio = (\<lambda>bs. True)\<rparr>"

text \<open>
  A list of two records: one of a type the decoder does not know, 28 bytes long, and one
  SHA-256 record of 76 bytes with one 32-byte hash.
\<close>

definition unknown_then_hash :: bytes where
  "unknown_then_hash =
     replicate 16 7 @ put_le32 28 @ put_le32 0 @ put_le32 0 @
     EfiHashSha256Guid uefi_externals @ put_le32 76 @ put_le32 0 @ put_le32 48 @
     replicate 16 1 @ replicate 32 9"

text \<open>
  A world without variables and files, whose operator types \<open>password1\<close> at every
  prompt; the same world with a signature database holding one key and an enrolled list
  holding the key \<open>[4, 5]\<close>; and the same world with a firmware that refuses to write
  \<^verbatim>\<open>MokAuth\<close>.
\<close>

definition quiet_world :: world where
  "quiet_world =
     \<lparr>efivars = Map.empty, edit_fails = (\<lambda>k. False), filesys = Map.empty,
      tty = (\<lambda>n. ''password1''), tty_pos = 0, printed = [], uninit = (\<lambda>n. 0xAA)\<rparr>"

definition db_world :: "bytes \<Rightarrow> world" where
  "db_world key =
     quiet_world\<lparr>efivars := [(''db'', EfiImageSecurityDatabase) \<mapsto> x509_list uefi_externals key,
                             (''MokListRT'', ShimLock) \<mapsto> x509_list uefi_externals [4, 5]]\<rparr>"

definition tag_refused_world :: world where
  "tag_refused_world = quiet_world\<lparr>edit_fails := (\<lambda>k. k = (''MokAuth'', ShimLock))\<rparr>"

text \<open>
  The world with a signature database holding the key \<open>[1, 2, 3]\<close> and with two key
  files, \<open>A.der\<close> holding that key and \<open>B.der\<close> holding a fresh one; and the same world
  with a pending request under a password that is not the one the operator types.
\<close>

definition two_files_world :: world where
  "two_files_world =
     (db_world [1, 2, 3])\<lparr>filesys := [''A.der'' \<mapsto> [1, 2, 3], ''B.der'' \<mapsto> [4, 5, 6]]\<rparr>"

definition pending_world :: world where
  "pending_world =
     two_files_world\<lparr>efivars := (efivars two_files_world)
       ((''MokNew'', ShimLock) \<mapsto> x509_list uefi_externals [9, 9],
        (''MokAuth'', ShimLock) \<mapsto>
           SHA256 uefi_externals (x509_list uefi_externals [9, 9] @ utf16le ''correct horse''))\<rparr>"

text \<open>
  A world without variables and with two fresh key files; and a world whose one key file
  has \<open>2\<^sup>3\<^sup>2 + 3\<close> bytes, the first three of them 1, 2 and 3.
\<close>

definition fresh_files_world :: world where
  "fresh_files_world =
     quiet_world\<lparr>filesys := [''A.der'' \<mapsto> [1, 2, 3], ''B.der'' \<mapsto> [4, 5, 6]]\<rparr>"

definition huge_file_world :: world where
  "huge_file_world =
     quiet_world\<lparr>filesys := [''huge.der'' \<mapsto> [1, 2, 3] @ replicate 4294967296 0]\<rparr>"

text \<open>
  The world with the pending request, whose operator types \<open>short\<close> at every prompt; the
  world with the two key files and a pending request under the password that the operator
  types; and the same world with an operator who guesses the old password wrong once,
  then gives it, then types a line that is too short, chooses a new password, mistypes it
  and repeats it.
\<close>

definition hasty_world :: world where
  "hasty_world = pending_world\<lparr>tty := (\<lambda>n. ''short'')\<rparr>"



text \<open>
  A world without variables whose two key files have \<open>2\<^sup>3\<^sup>0\<close> bytes each.
\<close>

definition two_gib_world :: world where
  "two_gib_world =
     quiet_world\<lparr>filesys := [''A.der'' \<mapsto> replicate 1073741824 1,
                             ''B.der'' \<mapsto> replicate 1073741824 2]\<rparr>"


text \<open>
  A list of X.509 type with two certificates, the list of one certificate, the world
  whose signature database is one given list, and a world with a signature database of two
  lists of one certificate and one enrolled key.
\<close>

definition two_certs :: signature_list where
  "two_certs =
     \<lparr>sl_type = EfiCertX509Guid uefi_externals, sl_header = [],
      sl_entries = [(SHIM_LOCK_GUID, [1, 2, 3]), (SHIM_LOCK_GUID, [4, 5, 6])]\<rparr>"

definition one_cert :: "bytes \<Rightarrow> signature_list" where
  "one_cert key =
     \<lparr>sl_type = EfiCertX509Guid uefi_externals, sl_header = [],
      sl_entries = [(SHIM_LOCK_GUID, key)]\<rparr>"

definition db_holds :: "signature_list \<Rightarrow> world" where
  "db_holds r =
     quiet_world\<lparr>efivars := [(''db'', EfiImageSecurityDatabase) \<mapsto> encode_database [r]]\<rparr>"

definition lists_world :: world where
  "lists_world =
     quiet_world\<lparr>efivars :=
       [(''db'', EfiImageSecurityDatabase) \<mapsto>
          encode_database [one_cert [1, 2, 3], one_cert [4, 5, 6]],
        (''MokListRT'', ShimLock) \<mapsto> encode_database [one_cert [7, 8, 9]]]\<rparr>"

section \<open>The decoder: faults, termination and the entries it produces\<close>

lemma le32_put_le32: "le32 (put_le32 v) = v"
  unfolding le32_def put_le32_def
  apply simp
  apply (rule bit_word_eqI)
  apply (auto simp: bit_simps)
  subgoal for n by (cases "n < 24") auto
  done

lemma length_put_le32: "length (put_le32 v) = 4"
  by (simp add: put_le32_def)

lemma length_SHIM_LOCK_GUID: "length SHIM_LOCK_GUID = 16"
  by (simp add: SHIM_LOCK_GUID_def EFI_GUID_def put_le32_def put_le16_def)

lemma read_bytes_middle:
  "k + n \<le> length xs \<Longrightarrow> read_bytes (pre @ xs @ post) (length pre + k) n = Inr (take n (drop k xs))"
  by (simp add: read_bytes_def)

lemmas field_defs =
  SignatureListSize_def SignatureType_def SignatureHeaderSize_def SignatureSize_def
  read_u32_def read_bytes_def sizeof_efi_guid_t_def sizeof_EFI_SIGNATURE_LIST_def

text \<open>A pass that does not move the cursor comes back to the same pass, for ever.\<close>

lemma mok_loop_stuck:
  assumes "mok_pass ct ht data p s = Inr (Advance x 0)"
  shows "mok_loop ct ht data p s acc = None"
proof (rule ccontr)
  assume "mok_loop ct ht data p s acc \<noteq> None"
  then obtain r where r: "mok_loop ct ht data p s acc = Some r" by auto
  have "\<not> (ct = ct \<and> ht = ht \<and> data = data \<and> p = p \<and> s = s)"
  proof (rule mok_loop.raw_induct
      [where P = "\<lambda>a b d q t l y. \<not> (a = ct \<and> b = ht \<and> d = data \<and> q = p \<and> t = s)", OF _ r])
    fix lp a b d q t l y
    assume IH: "\<And>a b d q t l y. lp a b d q t l = Some y
                  \<Longrightarrow> \<not> (a = ct \<and> b = ht \<and> d = data \<and> q = p \<and> t = s)"
      and eq: "(case mok_pass a b d q t of
                  Inl f \<Rightarrow> Some (Inl f)
                | Inr Leave \<Rightarrow> Some (Inr l)
                | Inr (Advance None n) \<Rightarrow> lp a b d (q + n) (t - n) l
                | Inr (Advance (Some node) n) \<Rightarrow> lp a b d (q + n) (t - n) (l @ [node])) = Some y"
    show "\<not> (a = ct \<and> b = ht \<and> d = data \<and> q = p \<and> t = s)"
    proof
      assume "a = ct \<and> b = ht \<and> d = data \<and> q = p \<and> t = s"
      with eq assms have "\<exists>l'. lp ct ht data p s l' = Some y"
        by (cases x) auto
      then obtain l' where "lp ct ht data p s l' = Some y" ..
      from IH[OF this] show False by simp
    qed
  qed
  then show False by simp
qed

lemma mok_pass_le: "mok_pass ct ht data p s = Inr (Advance x n) \<Longrightarrow> n \<le> s"
  by (auto simp: mok_pass_def add_entry_def split: if_splits sum.splits)

lemma mok_pass_entry:
  assumes "mok_pass ct ht data p s = Inr (Advance (Some node) n)"
  shows "(SignatureType data p = Inr ct \<or> SignatureType data p = Inr ht) \<and>
         (SignatureType data p = Inr ht \<longrightarrow> SignatureSize data p = Inr 48 \<and> mok_size node = 32)"
  using assms
  by (auto simp: mok_pass_def add_entry_def split: if_splits sum.splits)

lemma mok_pass_skip:
  assumes "0 < s" "SignatureListSize data p = Inr lsz" "unat lsz \<le> s"
    and "SignatureType data p = Inr ty"
    and "ty \<noteq> ct \<and> ty \<noteq> ht \<or> ty = ht \<and> (\<exists>ssz. SignatureSize data p = Inr ssz \<and> ssz \<noteq> 48)"
  shows "mok_pass ct ht data p s = Inr (Advance None (unat lsz))"
  using assms by (auto simp: mok_pass_def)

text \<open>Every node of the result was appended by some pass of the loop.\<close>

lemma mok_loop_origin:
  "mok_loop ct ht data p s acc = Some (Inr list) \<Longrightarrow> node \<in> set list \<Longrightarrow>
     node \<in> set acc \<or> (\<exists>q d n. mok_pass ct ht data q d = Inr (Advance (Some node) n))"
proof (induction s arbitrary: p acc rule: less_induct)
  case (less s)
  show ?case
  proof (cases "mok_pass ct ht data p s")
    case (Inl f)
    with less.prems show ?thesis by (simp add: mok_loop.simps)
  next
    case (Inr ps)
    show ?thesis
    proof (cases ps)
      case Leave
      with Inr less.prems show ?thesis by (simp add: mok_loop.simps)
    next
      case (Advance x n)
      with Inr have pass: "mok_pass ct ht data p s = Inr (Advance x n)" by simp
      have "n \<noteq> 0"
        using mok_loop_stuck[of ct ht data p s x acc] pass less.prems(1) by auto
      with mok_pass_le[OF pass] have dec: "s - n < s" by simp
      show ?thesis
      proof (cases x)
        case None
        with pass less.prems(1) have "mok_loop ct ht data (p + n) (s - n) acc = Some (Inr list)"
          by (subst (asm) mok_loop.simps) simp
        from less.IH[OF dec this less.prems(2)] show ?thesis .
      next
        case (Some nd)
        with pass less.prems(1)
        have "mok_loop ct ht data (p + n) (s - n) (acc @ [nd]) = Some (Inr list)"
          by (subst (asm) mok_loop.simps) simp
        from less.IH[OF dec this less.prems(2)] Some pass show ?thesis by auto
      qed
    qed
  qed
qed

text \<open>
  C1.  The claim is that the decoder never reads a byte at or beyond the length of the
  buffer, also when fewer bytes remain than the fixed header.  On a buffer of one byte
  the loop condition reads the field \<^verbatim>\<open>SignatureListSize\<close> at offsets 16 to 19: the run
  faults with a read past the end.
\<close>

theorem build_mok_list_reads_past_end:
  "build_mok_list CertType HashType [0] 1 = Some (Inl (ReadPastEnd 16))"
  by (simp add: build_mok_list_def mok_loop.simps mok_pass_def field_defs)

text \<open>
  C10.  The claim is that the decoder terminates on every buffer, also on a record whose
  \<^verbatim>\<open>SignatureListSize\<close> is zero.  On a buffer of 28 zero bytes (one header, its size field
  zero) the cursor never moves and the decoder never returns.
\<close>

theorem build_mok_list_never_returns:
  "build_mok_list CertType HashType (replicate 28 0) 28 = None"
proof -
  have "\<exists>x. mok_pass CertType HashType (replicate 28 0) 0 28 = Inr (Advance x 0)"
    by (simp add: mok_pass_def add_entry_def field_defs le32_def)
  then show ?thesis
    unfolding build_mok_list_def by (auto intro: mok_loop_stuck)
qed

text \<open>
  C8.  Every entry that the decoder produces comes from a pass over a record of one of the
  two known types, and an entry from a SHA-256 record has the size 32 (the record's
  \<^verbatim>\<open>SignatureSize\<close> being 48).  A record of neither type, and a SHA-256 record whose
  \<^verbatim>\<open>SignatureSize\<close> is not 48, is passed over: the pass appends nothing, raises nothing and
  the loop goes on behind the record with the same entries.
\<close>

theorem hash_entries_have_32_bytes:
  "(build_mok_list CertType HashType data data_size = Some (Inr list) \<longrightarrow>
      (\<forall>node\<in>set list. \<exists>CertList dbsize n.
          mok_pass CertType HashType data CertList dbsize = Inr (Advance (Some node) n) \<and>
          (SignatureType data CertList = Inr CertType \<or>
           SignatureType data CertList = Inr HashType) \<and>
          (SignatureType data CertList = Inr HashType \<longrightarrow>
             SignatureSize data CertList = Inr 48 \<and> mok_size node = 32))) \<and>
   (0 < dbsize \<and> SignatureListSize data p = Inr lsz \<and> unat lsz \<le> dbsize \<and>
    SignatureType data p = Inr ty \<and>
    (ty \<noteq> CertType \<and> ty \<noteq> HashType \<or>
     ty = HashType \<and> (\<exists>ssz. SignatureSize data p = Inr ssz \<and> ssz \<noteq> 48)) \<longrightarrow>
      mok_pass CertType HashType data p dbsize = Inr (Advance None (unat lsz)) \<and>
      mok_loop CertType HashType data p dbsize acc =
        mok_loop CertType HashType data (p + unat lsz) (dbsize - unat lsz) acc)"
proof (intro conjI impI ballI)
  fix node
  assume "build_mok_list CertType HashType data data_size = Some (Inr list)"
    and "node \<in> set list"
  then obtain q d n
    where "mok_pass CertType HashType data q d = Inr (Advance (Some node) n)"
    unfolding build_mok_list_def using mok_loop_origin by fastforce
  with mok_pass_entry[OF this]
  show "\<exists>CertList dbsize n.
          mok_pass CertType HashType data CertList dbsize = Inr (Advance (Some node) n) \<and>
          (SignatureType data CertList = Inr CertType \<or>
           SignatureType data CertList = Inr HashType) \<and>
          (SignatureType data CertList = Inr HashType \<longrightarrow>
             SignatureSize data CertList = Inr 48 \<and> mok_size node = 32)"
    by blast
next
  assume a: "0 < dbsize \<and> SignatureListSize data p = Inr lsz \<and> unat lsz \<le> dbsize \<and>
    SignatureType data p = Inr ty \<and>
    (ty \<noteq> CertType \<and> ty \<noteq> HashType \<or>
     ty = HashType \<and> (\<exists>ssz. SignatureSize data p = Inr ssz \<and> ssz \<noteq> 48))"
  then show pass: "mok_pass CertType HashType data p dbsize = Inr (Advance None (unat lsz))"
    by (intro mok_pass_skip[where ty = ty]) auto
  then show "mok_loop CertType HashType data p dbsize acc =
        mok_loop CertType HashType data (p + unat lsz) (dbsize - unat lsz) acc"
    by (subst mok_loop.simps) simp
qed

theorem hash_entries_have_32_bytes_witness:
  "build_mok_list (EfiCertX509Guid uefi_externals) (EfiHashSha256Guid uefi_externals)
     unknown_then_hash 104 = Some (Inr [\<lparr>mok_size = 32, mok = 72\<rparr>]) \<and>
   SignatureType unknown_then_hash 28 = Inr (EfiHashSha256Guid uefi_externals) \<and>
   SignatureType unknown_then_hash 0 = Inr (replicate 16 7) \<and>
   mok_loop (EfiCertX509Guid uefi_externals) (EfiHashSha256Guid uefi_externals)
     unknown_then_hash 0 104 [] =
   mok_loop (EfiCertX509Guid uefi_externals) (EfiHashSha256Guid uefi_externals)
     unknown_then_hash 28 76 []"
proof -
  have run: "build_mok_list (EfiCertX509Guid uefi_externals) (EfiHashSha256Guid uefi_externals)
     unknown_then_hash 104 = Some (Inr [\<lparr>mok_size = 32, mok = 72\<rparr>])"
    by code_simp
  have ty1: "SignatureType unknown_then_hash 28 = Inr (EfiHashSha256Guid uefi_externals)"
    by code_simp
  have ty0: "SignatureType unknown_then_hash 0 = Inr (replicate 16 7)"
    by code_simp
  have sz0: "SignatureListSize unknown_then_hash 0 = Inr 28"
    by code_simp
  have ne: "replicate 16 7 \<noteq> EfiCertX509Guid uefi_externals \<and>
            replicate 16 7 \<noteq> EfiHashSha256Guid uefi_externals"
    by code_simp
  have "mok_loop (EfiCertX509Guid uefi_externals) (EfiHashSha256Guid uefi_externals)
     unknown_then_hash 0 104 [] =
   mok_loop (EfiCertX509Guid uefi_externals) (EfiHashSha256Guid uefi_externals)
     unknown_then_hash (0 + unat (28 :: 32 word)) (104 - unat (28 :: 32 word)) []"
    using hash_entries_have_32_bytes
      [of "EfiCertX509Guid uefi_externals" "EfiHashSha256Guid uefi_externals"
          unknown_then_hash 104 "[\<lparr>mok_size = 32, mok = 72\<rparr>]" 104 0 28 "replicate 16 7" "[]"]
      run ty0 sz0 ne
    by simp
  with run ty1 ty0 show ?thesis by simp
qed

section \<open>The authentication tag\<close>

lemma efichar_from_char_34:
  "efichar_from_char pw (nat (PASSWORD_MAX + 1) * sizeof_efi_char16_t) =
     (utf16le (take 16 (cstr pw)) @ [0, 0], length (utf16le (take 16 (cstr pw))))"
proof -
  have "length (utf16le s) = length s * 2" for s
    by (induction s) (simp_all add: utf16le_def)
  then show ?thesis
    by (simp add: efichar_from_char_def PASSWORD_MAX_def sizeof_efi_char16_t_def utf16le_def Let_def)
qed

lemma generate_auth_Some:
  assumes "case new_list of None \<Rightarrow> True | Some l \<Rightarrow> list_len \<le> length l"
  shows "generate_auth e new_list list_len (Some password) pw_len auth =
           Inr (0, SHA256 e ((case new_list of None \<Rightarrow> [] | Some l \<Rightarrow> take list_len l)
                              @ utf16le (take 16 (cstr password))))"
  using assms
  by (cases new_list)
     (simp_all add: generate_auth_def efichar_from_char_34 SHA256_Update_def SHA256_Init_def
        SHA256_Final_def read_bytes_def)




section \<open>Eligibility\<close>

lemma is_duplicate_loop_eq:
  assumes "list_all (\<lambda>node. mok node + unat (mok_size node) \<le> length data) list"
    and "length cert = unat cert_size"
  shows "is_duplicate_loop data list cert cert_size =
           Inr (\<exists>node\<in>set list. mok_data data node = Inr cert)"
  using assms
proof (induction list)
  case Nil
  then show ?case by simp
next
  case (Cons node list)
  show ?case
  proof (cases "mok_size node = cert_size")
    case False
    then have "unat (mok_size node) \<noteq> length cert"
      using Cons.prems(2) by (simp add: word_unat_eq_iff)
    then have "mok_data data node \<noteq> Inr cert"
      using Cons.prems(1) by (auto simp: mok_data_def read_bytes_def)
    with False Cons show ?thesis by simp
  next
    case True
    with Cons show ?thesis
      by (auto simp: mok_data_def read_bytes_def memcmp_eq0_def split: bool.splits)
  qed
qed

lemma or_else_Inr: "or_else (Some (Inr a)) (Some (Inr b)) = Some (Inr (a \<or> b))"
  by (simp add: or_else_def split: bool.splits)

lemma negate_Inr: "negate (Some (Inr a)) = Some (Inr (\<not> a))"
  by (simp add: negate_def)

lemma is_duplicate_empty: "is_duplicate e w cert 0 name guid = Some (Inr False)"
  by (simp add: is_duplicate_def)

text \<open>
  On a well-formed database the decoder returns, and its nodes are the first entries of
  the recognised lists.
\<close>

lemma length_entries:
  "list_all (\<lambda>(owner, payload). length owner = 16 \<and> 16 + length payload = k) es \<Longrightarrow>
     length (concat (map (\<lambda>(owner, payload). owner @ payload) es)) = length es * k"
  by (induction es) auto

lemma length_encode_list: "well_formed r \<Longrightarrow> length (encode_list r) = sl_size r"
  by (simp add: encode_list_def well_formed_def length_put_le32 length_entries sl_size_def)

lemma well_formed_sizes:
  assumes "well_formed r"
  shows "16 \<le> entry_size r" "entry_size r < 2 ^ 32" "length (sl_header r) < 2 ^ 32"
    "44 + length (sl_header r) \<le> sl_size r" "sl_size r < 2 ^ 32"
    "28 + length (sl_header r) + entry_size r \<le> sl_size r"
proof -
  from assms obtain en es where es: "sl_entries r = en # es"
    by (cases "sl_entries r") (auto simp: well_formed_def)
  show "16 \<le> entry_size r" by (simp add: entry_size_def)
  show 5: "sl_size r < 2 ^ 32" using assms by (simp add: well_formed_def)
  have m: "entry_size r \<le> length (sl_entries r) * entry_size r" using es by simp
  show 6: "28 + length (sl_header r) + entry_size r \<le> sl_size r"
    using m unfolding sl_size_def by linarith
  from 5 6 show "entry_size r < 2 ^ 32" "length (sl_header r) < 2 ^ 32" by linarith+
  have "16 \<le> entry_size r" by (simp add: entry_size_def)
  with m show "44 + length (sl_header r) \<le> sl_size r"
    unfolding sl_size_def by linarith
qed

lemma encode_fields:
  assumes wf: "well_formed r"
  shows "SignatureType (pre @ encode_list r @ post) (length pre) = Inr (sl_type r)"
    and "SignatureListSize (pre @ encode_list r @ post) (length pre) = Inr (word_of_nat (sl_size r))"
    and "SignatureHeaderSize (pre @ encode_list r @ post) (length pre) =
           Inr (word_of_nat (length (sl_header r)))"
    and "SignatureSize (pre @ encode_list r @ post) (length pre) = Inr (word_of_nat (entry_size r))"
proof -
  have ty: "length (sl_type r) = 16" using wf by (simp add: well_formed_def)
  have l: "28 \<le> length (encode_list r)"
    using well_formed_sizes(4)[OF wf] length_encode_list[OF wf] by simp
  have rd: "k + n \<le> 28 \<Longrightarrow> read_bytes (pre @ encode_list r @ post) (length pre + k) n
             = Inr (take n (drop k (encode_list r)))" for k n
    using l by (intro read_bytes_middle) simp
  show "SignatureType (pre @ encode_list r @ post) (length pre) = Inr (sl_type r)"
    using rd[of 0 16] ty by (simp add: SignatureType_def sizeof_efi_guid_t_def encode_list_def)
  show "SignatureListSize (pre @ encode_list r @ post) (length pre) = Inr (word_of_nat (sl_size r))"
    using rd[of 16 4] ty
    by (simp add: SignatureListSize_def read_u32_def encode_list_def length_put_le32 le32_put_le32)
  show "SignatureHeaderSize (pre @ encode_list r @ post) (length pre) =
           Inr (word_of_nat (length (sl_header r)))"
    using rd[of 20 4] ty
    by (simp add: SignatureHeaderSize_def read_u32_def encode_list_def length_put_le32 le32_put_le32)
  show "SignatureSize (pre @ encode_list r @ post) (length pre) = Inr (word_of_nat (entry_size r))"
    using rd[of 24 4] ty
    by (simp add: SignatureSize_def read_u32_def encode_list_def length_put_le32 le32_put_le32)
qed

lemma unat_of_nat32: "n < 2 ^ 32 \<Longrightarrow> unat (word_of_nat n :: 32 word) = n"
  by (simp add: unat_of_nat)

lemma mok_pass_encode:
  assumes wf: "well_formed r"
    and ne: "EfiCertX509Guid e \<noteq> EfiHashSha256Guid e"
    and s: "sl_size r \<le> s"
  shows "mok_pass (EfiCertX509Guid e) (EfiHashSha256Guid e) (pre @ encode_list r @ post)
           (length pre) s =
         Inr (Advance
                (if recognised e r
                 then Some \<lparr>mok_size = word_of_nat (entry_size r - 16),
                            mok = length pre + 28 + length (sl_header r) + 16\<rparr>
                 else None)
                (sl_size r))"
proof -
  note z = well_formed_sizes[OF wf]
  have u: "unat (word_of_nat (sl_size r) :: 32 word) = sl_size r"
    "unat (word_of_nat (length (sl_header r)) :: 32 word) = length (sl_header r)"
    using z by (simp_all add: unat_of_nat32)
  have e48: "(word_of_nat (entry_size r) = (48 :: 32 word)) = (entry_size r = 48)"
  proof
    assume "word_of_nat (entry_size r) = (48 :: 32 word)"
    then have "unat (word_of_nat (entry_size r) :: 32 word) = unat (48 :: 32 word)" by simp
    then show "entry_size r = 48" using z(2) by (simp add: unat_of_nat32)
  qed simp
  have d: "(word_of_nat (entry_size r) :: 32 word) - 16 = word_of_nat (entry_size r - 16)"
    using z(1) by (simp add: of_nat_diff)
  have pos: "0 < s" using z(4) s by simp
  show ?thesis
    using pos s ne
    by (simp add: mok_pass_def add_entry_def encode_fields[OF wf] u e48 d recognised_def
          sizeof_EFI_SIGNATURE_LIST_def sizeof_efi_guid_t_def)
qed

lemma length_encode_database:
  "list_all well_formed rs \<Longrightarrow> length (encode_database rs) = sum_list (map sl_size rs)"
  by (induction rs) (simp_all add: encode_database_def length_encode_list)

lemma mok_loop_database:
  assumes ne: "EfiCertX509Guid e \<noteq> EfiHashSha256Guid e"
    and wf: "list_all well_formed rs"
  shows "mok_loop (EfiCertX509Guid e) (EfiHashSha256Guid e) (pre @ encode_database rs)
           (length pre) (length (encode_database rs)) acc =
         Some (Inr (acc @ nodes_of e (length pre) rs))"
  using wf
proof (induction rs arbitrary: pre acc)
  case Nil
  show ?case
    by (subst mok_loop.simps) (simp add: mok_pass_def encode_database_def)
next
  case (Cons r rs)
  let ?ct = "EfiCertX509Guid e" and ?ht = "EfiHashSha256Guid e"
  let ?rest = "encode_database rs"
  let ?data = "pre @ encode_list r @ ?rest"
  let ?node = "\<lparr>mok_size = word_of_nat (entry_size r - 16),
                 mok = length pre + 28 + length (sl_header r) + 16\<rparr>"
  from Cons.prems have wr: "well_formed r" and wrs: "list_all well_formed rs" by simp_all
  have lr: "length (encode_list r) = sl_size r" using wr by (rule length_encode_list)
  have db: "encode_database (r # rs) = encode_list r @ ?rest"
    by (simp add: encode_database_def)
  have pass: "mok_pass ?ct ?ht ?data (length pre) (length (encode_list r @ ?rest)) =
         Inr (Advance (if recognised e r then Some ?node else None) (sl_size r))"
    by (rule mok_pass_encode[OF wr ne]) (simp add: lr)
  have IH: "mok_loop ?ct ?ht ((pre @ encode_list r) @ ?rest) (length (pre @ encode_list r))
              (length ?rest) acc' =
            Some (Inr (acc' @ nodes_of e (length (pre @ encode_list r)) rs))" for acc'
    using wrs by (rule Cons.IH)
  have "mok_loop ?ct ?ht ?data (length pre) (length (encode_list r @ ?rest)) acc =
        mok_loop ?ct ?ht ?data (length pre + sl_size r) (length (encode_list r @ ?rest) - sl_size r)
          (if recognised e r then acc @ [?node] else acc)"
    by (subst mok_loop.simps) (simp only: pass sum.case pass.case option.case split: if_splits, simp)
  also have "\<dots> = Some (Inr (acc @ nodes_of e (length pre) (r # rs)))"
    using IH lr by (simp add: add.assoc)
  finally show ?case by (simp only: db)
qed

lemma first_entry:
  assumes wf: "well_formed r"
  shows "read_bytes (pre @ encode_list r @ post) (length pre + 28 + length (sl_header r) + 16)
           (entry_size r - 16) = Inr (snd (hd (sl_entries r)))"
proof -
  from wf obtain ow pl es where es: "sl_entries r = (ow, pl) # es"
    by (cases "sl_entries r") (auto simp: well_formed_def)
  have ty: "length (sl_type r) = 16" and ow: "length ow = 16"
    using wf es by (simp_all add: well_formed_def)
  have sz: "entry_size r - 16 = length pl" by (simp add: entry_size_def es)
  note z = well_formed_sizes[OF wf]
  have "read_bytes (pre @ encode_list r @ post) (length pre + (28 + length (sl_header r) + 16))
           (entry_size r - 16) =
        Inr (take (entry_size r - 16) (drop (28 + length (sl_header r) + 16) (encode_list r)))"
    using z(1,6) length_encode_list[OF wf] by (intro read_bytes_middle) simp
  also have "drop (28 + length (sl_header r) + 16) (encode_list r) =
               pl @ concat (map (\<lambda>(owner, payload). owner @ payload) es)"
    using ty ow by (simp add: encode_list_def es length_put_le32)
  finally show ?thesis
    by (simp add: sz es add.assoc)
qed

lemma mok_data_database:
  assumes wf: "list_all well_formed rs"
  shows "map (mok_data (pre @ encode_database rs)) (nodes_of e (length pre) rs) =
           map Inr (concat (map (\<lambda>r. take 1 (key_entries e r)) rs))"
  using wf
proof (induction rs arbitrary: pre)
  case Nil
  show ?case by simp
next
  case (Cons r rs)
  from Cons.prems have wr: "well_formed r" and wrs: "list_all well_formed rs" by simp_all
  note z = well_formed_sizes[OF wr]
  have lr: "length (encode_list r) = sl_size r" using wr by (rule length_encode_list)
  have db: "encode_database (r # rs) = encode_list r @ encode_database rs"
    by (simp add: encode_database_def)
  have u: "unat (word_of_nat (entry_size r - 16) :: 32 word) = entry_size r - 16"
    using z(2) by (intro unat_of_nat32) simp
  have hd: "mok_data (pre @ encode_list r @ encode_database rs)
              \<lparr>mok_size = word_of_nat (entry_size r - 16),
               mok = length pre + 28 + length (sl_header r) + 16\<rparr> = Inr (snd (hd (sl_entries r)))"
    using first_entry[OF wr] by (simp add: mok_data_def u)
  have ne: "sl_entries r \<noteq> []" using wr by (simp add: well_formed_def)
  have t1: "recognised e r \<Longrightarrow> take 1 (key_entries e r) = [snd (hd (sl_entries r))]"
    using ne by (cases "sl_entries r") (simp_all add: key_entries_def)
  have t0: "\<not> recognised e r \<Longrightarrow> take 1 (key_entries e r) = []"
    by (simp add: key_entries_def)
  have IH: "map (mok_data ((pre @ encode_list r) @ encode_database rs))
              (nodes_of e (length (pre @ encode_list r)) rs) =
            map Inr (concat (map (\<lambda>r. take 1 (key_entries e r)) rs))"
    using wrs by (rule Cons.IH)
  show ?case
    using IH hd lr t1 t0 by (simp add: db add.assoc)
qed

lemma mok_data_bound: "mok_data data node = Inr x \<Longrightarrow> mok node + unat (mok_size node) \<le> length data"
  by (simp add: mok_data_def read_bytes_def split: if_splits)

lemma is_duplicate_holds:
  assumes ne: "EfiCertX509Guid e \<noteq> EfiHashSha256Guid e"
    and h: "holds w name guid rs"
    and sz: "cert_size \<noteq> 0" "length cert = unat cert_size"
  shows "is_duplicate e w cert cert_size name guid = Some (Inr (heads_contain e rs cert))"
proof (cases "efivars w (name, guid)")
  case None
  with h have "rs = []" by (simp add: holds_def)
  with None sz show ?thesis
    by (simp add: is_duplicate_def read_variable_def heads_contain_def)
next
  case (Some data)
  with h have data: "data = encode_database rs" and wf: "list_all well_formed rs"
    by (simp_all add: holds_def)
  let ?nodes = "nodes_of e 0 rs"
  let ?keys = "concat (map (\<lambda>r. take 1 (key_entries e r)) rs)"
  have dec: "build_mok_list (EfiCertX509Guid e) (EfiHashSha256Guid e) data (length data) =
               Some (Inr ?nodes)"
    unfolding build_mok_list_def data
    using mok_loop_database[OF ne wf, of "[]" "[]"] by simp
  have md: "map (mok_data data) ?nodes = map Inr ?keys"
    unfolding data using mok_data_database[OF wf, of "[]" e] by simp
  have inside: "list_all (\<lambda>node. mok node + unat (mok_size node) \<le> length data) ?nodes"
  proof -
    have "\<exists>x. mok_data data node = Inr x" if "node \<in> set ?nodes" for node
    proof -
      from that have "mok_data data node \<in> set (map (mok_data data) ?nodes)" by simp
      then show ?thesis unfolding md by auto
    qed
    then show ?thesis
      by (auto simp: list_all_iff dest: mok_data_bound)
  qed
  have "(\<exists>node\<in>set ?nodes. mok_data data node = Inr cert) = (Inr cert \<in> set (map (mok_data data) ?nodes))"
    by (force simp: image_iff)
  also have "\<dots> = (cert \<in> set ?keys)"
    unfolding md by auto
  finally have "(\<exists>node\<in>set ?nodes. mok_data data node = Inr cert) = heads_contain e rs cert"
    by (simp add: heads_contain_def)
  with is_duplicate_loop_eq[OF inside sz(2)] dec Some sz(1) show ?thesis
    by (simp add: is_duplicate_def read_variable_def)
qed

lemma well_formed_two_certs: "well_formed two_certs"
  by (simp add: well_formed_def two_certs_def sl_size_def entry_size_def length_SHIM_LOCK_GUID
       uefi_externals_def EFI_GUID_def put_le32_def put_le16_def)

lemma well_formed_one_cert: "length key + 44 < 2 ^ 32 \<Longrightarrow> well_formed (one_cert key)"
  by (simp add: well_formed_def one_cert_def sl_size_def entry_size_def length_SHIM_LOCK_GUID
       uefi_externals_def EFI_GUID_def put_le32_def put_le16_def)

lemma holds_db: "well_formed r \<Longrightarrow> holds (db_holds r) ''db'' EfiImageSecurityDatabase [r]"
  by (simp add: holds_def db_holds_def)

lemma holds_nothing: "efivars w (name, guid) = None \<Longrightarrow> holds w name guid []"
  by (simp add: holds_def)

text \<open>
  What \<^verbatim>\<open>is_valid_request\<close> decides, with every list that it consults absent or a
  well-formed signature database: a candidate of size 0 is eligible for enrollment and not
  for deletion; for a candidate of another size the first entries of the recognised
  lists are compared with it, and no other entry.
\<close>

lemma is_valid_request_by_first_entries:
  assumes ne: "EfiCertX509Guid e \<noteq> EfiHashSha256Guid e"
    and cand: "length candidate = unat mok_sz"
    and dbs: "if import
              then holds w ''PK'' EfiGlobalVariable pk \<and>
                   holds w ''KEK'' EfiGlobalVariable kek \<and>
                   holds w ''db'' EfiImageSecurityDatabase db \<and>
                   holds w ''MokListRT'' ShimLock enrolled \<and>
                   holds w ''MokNew'' ShimLock pending
              else holds w ''MokListRT'' ShimLock enrolled \<and>
                   holds w ''MokDel'' ShimLock pending"
  shows "is_valid_request e w candidate mok_sz import =
           Some (Inr (if mok_sz = 0 then import
                      else if import
                      then \<not> heads_contain e pk candidate \<and>
                           \<not> heads_contain e kek candidate \<and>
                           \<not> heads_contain e db candidate \<and>
                           \<not> heads_contain e enrolled candidate \<and>
                           \<not> heads_contain e pending candidate
                      else heads_contain e enrolled candidate \<and>
                           \<not> heads_contain e pending candidate))"
proof (cases "mok_sz = 0")
  case True
  then show ?thesis
    by (simp add: is_valid_request_def is_duplicate_empty or_else_Inr negate_Inr)
next
  case False
  note d = is_duplicate_holds[OF ne _ False cand]
  show ?thesis
  proof (cases import)
    case True
    with dbs have h: "holds w ''PK'' EfiGlobalVariable pk" "holds w ''KEK'' EfiGlobalVariable kek"
      "holds w ''db'' EfiImageSecurityDatabase db" "holds w ''MokListRT'' ShimLock enrolled"
      "holds w ''MokNew'' ShimLock pending"
      by simp_all
    show ?thesis
      using True False
      by (simp add: is_valid_request_def d[OF h(1)] d[OF h(2)] d[OF h(3)] d[OF h(4)] d[OF h(5)]
            or_else_Inr negate_Inr)
  next
    case imp: False
    with dbs have h: "holds w ''MokListRT'' ShimLock enrolled" "holds w ''MokDel'' ShimLock pending"
      by simp_all
    show ?thesis
      using imp False
      by (simp add: is_valid_request_def d[OF h(1)] d[OF h(2)] or_else_Inr negate_Inr)
  qed
qed

text \<open>
  On lists of one entry each the first entries are all the entries, and the test on the
  first entries is the membership test of the spec.
\<close>

lemma heads_contain_single:
  "single_entries rs \<Longrightarrow> heads_contain e rs candidate = contains e rs candidate"
proof -
  assume a: "single_entries rs"
  have "take 1 (key_entries e r) = key_entries e r" if "r \<in> set rs" for r
    using a that by (simp add: key_entries_def single_entries_def list_all_iff)
  then have "map (\<lambda>r. take 1 (key_entries e r)) rs = map (key_entries e) rs" by simp
  then show ?thesis by (simp add: heads_contain_def contains_def)
qed

text \<open>
  C5, as stated, fails in two ways.  A list of the signature database holds two
  certificates and the candidate is the second: the candidate appears in the database and
  is eligible for enrollment all the same, because the decoder reads the first entry of a
  list only.  And the candidate is empty: \<^verbatim>\<open>is_duplicate\<close> returns 0 for a candidate of
  size 0 before it looks at any list, so an empty key is eligible for enrollment although
  the signature database holds an empty key.
\<close>

theorem is_valid_request_counterexample:
  "is_valid_request uefi_externals (db_holds two_certs) [4, 5, 6] 3 True = Some (Inr True) \<and>
   holds (db_holds two_certs) ''db'' EfiImageSecurityDatabase [two_certs] \<and>
   contains uefi_externals [two_certs] [4, 5, 6] \<and>
   is_valid_request uefi_externals (db_holds (one_cert [])) [] 0 True = Some (Inr True) \<and>
   holds (db_holds (one_cert [])) ''db'' EfiImageSecurityDatabase [one_cert []] \<and>
   contains uefi_externals [one_cert []] []"
proof -
  have "is_valid_request uefi_externals (db_holds two_certs) [4, 5, 6] 3 True = Some (Inr True)"
    by code_simp
  moreover have "contains uefi_externals [two_certs] [4, 5, 6]"
    by code_simp
  moreover have "is_valid_request uefi_externals (db_holds (one_cert [])) [] 0 True = Some (Inr True)"
    by code_simp
  moreover have "contains uefi_externals [one_cert []] []"
    by code_simp
  ultimately show ?thesis
    using holds_db[OF well_formed_two_certs] holds_db[OF well_formed_one_cert[of "[]"]] by simp
qed

text \<open>
  C5, amended.  Take every list that is consulted to be absent or a well-formed signature
  database whose lists have one entry each.  A candidate of size 0 is eligible for
  enrollment and not eligible for deletion, whatever the lists hold.  A candidate of
  another size is eligible for enrollment iff it appears in none of \<^verbatim>\<open>PK\<close>, \<^verbatim>\<open>KEK\<close>,
  \<^verbatim>\<open>db\<close>, \<^verbatim>\<open>MokListRT\<close> and \<^verbatim>\<open>MokNew\<close> (\<^verbatim>\<open>MokDel\<close> is not consulted), and eligible
  for deletion iff it appears in \<^verbatim>\<open>MokListRT\<close> and not in \<^verbatim>\<open>MokDel\<close>; to appear in a
  list is to be the payload of an entry of it, as in the spec.
\<close>

theorem is_valid_request_characterised:
  assumes ne: "EfiCertX509Guid e \<noteq> EfiHashSha256Guid e"
    and cand: "length candidate = unat mok_sz"
    and dbs: "if import
              then holds w ''PK'' EfiGlobalVariable pk \<and> single_entries pk \<and>
                   holds w ''KEK'' EfiGlobalVariable kek \<and> single_entries kek \<and>
                   holds w ''db'' EfiImageSecurityDatabase db \<and> single_entries db \<and>
                   holds w ''MokListRT'' ShimLock enrolled \<and> single_entries enrolled \<and>
                   holds w ''MokNew'' ShimLock pending \<and> single_entries pending
              else holds w ''MokListRT'' ShimLock enrolled \<and> single_entries enrolled \<and>
                   holds w ''MokDel'' ShimLock pending \<and> single_entries pending"
  shows "is_valid_request e w candidate mok_sz import =
           Some (Inr (if mok_sz = 0 then import
                      else if import
                      then \<not> contains e pk candidate \<and>
                           \<not> contains e kek candidate \<and>
                           \<not> contains e db candidate \<and>
                           \<not> contains e enrolled candidate \<and>
                           \<not> contains e pending candidate
                      else contains e enrolled candidate \<and>
                           \<not> contains e pending candidate))"
proof (cases import)
  case True
  with dbs have h: "if import
              then holds w ''PK'' EfiGlobalVariable pk \<and>
                   holds w ''KEK'' EfiGlobalVariable kek \<and>
                   holds w ''db'' EfiImageSecurityDatabase db \<and>
                   holds w ''MokListRT'' ShimLock enrolled \<and>
                   holds w ''MokNew'' ShimLock pending
              else holds w ''MokListRT'' ShimLock enrolled \<and>
                   holds w ''MokDel'' ShimLock pending"
    and s: "single_entries pk" "single_entries kek" "single_entries db" "single_entries enrolled"
      "single_entries pending"
    by simp_all
  show ?thesis
    using is_valid_request_by_first_entries[OF ne cand h] True
    by (simp add: heads_contain_single s)
next
  case False
  with dbs have h: "if import
              then holds w ''PK'' EfiGlobalVariable pk \<and>
                   holds w ''KEK'' EfiGlobalVariable kek \<and>
                   holds w ''db'' EfiImageSecurityDatabase db \<and>
                   holds w ''MokListRT'' ShimLock enrolled \<and>
                   holds w ''MokNew'' ShimLock pending
              else holds w ''MokListRT'' ShimLock enrolled \<and>
                   holds w ''MokDel'' ShimLock pending"
    and s: "single_entries enrolled" "single_entries pending"
    by simp_all
  show ?thesis
    using is_valid_request_by_first_entries[OF ne cand h] False
    by (simp add: heads_contain_single s)
qed

theorem is_valid_request_characterised_witness:
  "is_valid_request uefi_externals lists_world [1, 2, 3] 3 True = Some (Inr False) \<and>
   is_valid_request uefi_externals lists_world [4, 5, 6] 3 True = Some (Inr False) \<and>
   is_valid_request uefi_externals lists_world [7, 8, 9] 3 True = Some (Inr False) \<and>
   is_valid_request uefi_externals lists_world [9, 9] 2 True = Some (Inr True) \<and>
   is_valid_request uefi_externals lists_world [7, 8, 9] 3 False = Some (Inr True) \<and>
   is_valid_request uefi_externals lists_world [1, 2, 3] 3 False = Some (Inr False)"
proof -
  let ?e = uefi_externals and ?w = lists_world
  let ?db = "[one_cert [1, 2, 3], one_cert [4, 5, 6]]" and ?rt = "[one_cert [7, 8, 9]]"
  have ne: "EfiCertX509Guid ?e \<noteq> EfiHashSha256Guid ?e"
    by code_simp
  have none: "holds ?w ''PK'' EfiGlobalVariable []" "holds ?w ''KEK'' EfiGlobalVariable []"
    "holds ?w ''MokNew'' ShimLock []" "holds ?w ''MokDel'' ShimLock []"
    by (simp_all add: holds_def lists_world_def quiet_world_def)
  have db: "holds ?w ''db'' EfiImageSecurityDatabase ?db"
    using well_formed_one_cert[of "[1, 2, 3]"] well_formed_one_cert[of "[4, 5, 6]"]
    by (simp add: holds_def lists_world_def)
  have rt: "holds ?w ''MokListRT'' ShimLock ?rt"
    using well_formed_one_cert[of "[7, 8, 9]"] by (simp add: holds_def lists_world_def)
  have s: "single_entries []" "single_entries ?db" "single_entries ?rt"
    by code_simp+
  have imp: "if True
             then holds ?w ''PK'' EfiGlobalVariable [] \<and> single_entries [] \<and>
                  holds ?w ''KEK'' EfiGlobalVariable [] \<and> single_entries [] \<and>
                  holds ?w ''db'' EfiImageSecurityDatabase ?db \<and> single_entries ?db \<and>
                  holds ?w ''MokListRT'' ShimLock ?rt \<and> single_entries ?rt \<and>
                  holds ?w ''MokNew'' ShimLock [] \<and> single_entries []
             else holds ?w ''MokListRT'' ShimLock ?rt \<and> single_entries ?rt \<and>
                  holds ?w ''MokDel'' ShimLock [] \<and> single_entries []"
    using none db rt s by simp
  have del: "if False
             then holds ?w ''PK'' EfiGlobalVariable [] \<and> single_entries [] \<and>
                  holds ?w ''KEK'' EfiGlobalVariable [] \<and> single_entries [] \<and>
                  holds ?w ''db'' EfiImageSecurityDatabase ?db \<and> single_entries ?db \<and>
                  holds ?w ''MokListRT'' ShimLock ?rt \<and> single_entries ?rt \<and>
                  holds ?w ''MokNew'' ShimLock [] \<and> single_entries []
             else holds ?w ''MokListRT'' ShimLock ?rt \<and> single_entries ?rt \<and>
                  holds ?w ''MokDel'' ShimLock [] \<and> single_entries []"
    using none rt s by simp
  have l: "length [1, 2, 3 :: byte] = unat (3 :: 32 word)"
    "length [4, 5, 6 :: byte] = unat (3 :: 32 word)"
    "length [7, 8, 9 :: byte] = unat (3 :: 32 word)"
    "length [9, 9 :: byte] = unat (2 :: 32 word)"
    by simp_all
  have h: "contains ?e ?db [1, 2, 3]" "contains ?e ?db [4, 5, 6]" "\<not> contains ?e ?db [7, 8, 9]"
    "\<not> contains ?e ?db [9, 9]"
    "\<not> contains ?e ?rt [1, 2, 3]" "\<not> contains ?e ?rt [4, 5, 6]" "contains ?e ?rt [7, 8, 9]"
    "\<not> contains ?e ?rt [9, 9]"
    "\<not> contains ?e [] [1, 2, 3]" "\<not> contains ?e [] [4, 5, 6]" "\<not> contains ?e [] [7, 8, 9]"
    "\<not> contains ?e [] [9, 9]"
    by code_simp+
  have a: "is_valid_request ?e ?w [1, 2, 3] 3 True = Some (Inr False)"
    using is_valid_request_characterised[OF ne l(1) imp] h by simp
  have b: "is_valid_request ?e ?w [4, 5, 6] 3 True = Some (Inr False)"
    using is_valid_request_characterised[OF ne l(2) imp] h by simp
  have c: "is_valid_request ?e ?w [7, 8, 9] 3 True = Some (Inr False)"
    using is_valid_request_characterised[OF ne l(3) imp] h by simp
  have d: "is_valid_request ?e ?w [9, 9] 2 True = Some (Inr True)"
    using is_valid_request_characterised[OF ne l(4) imp] h by simp
  have e: "is_valid_request ?e ?w [7, 8, 9] 3 False = Some (Inr True)"
    using is_valid_request_characterised[OF ne l(3) del] h by simp
  have f: "is_valid_request ?e ?w [1, 2, 3] 3 False = Some (Inr False)"
    using is_valid_request_characterised[OF ne l(1) del] h by simp
  from a b c d e f show ?thesis by simp
qed

section \<open>The dialogue with the operator changes nothing but the terminal\<close>

lemma talked_refl: "talked w w"
  unfolding talked_def by (rule exI[of _ 0], rule exI[of _ "[]"]) simp

lemma talked_trans: "talked w w1 \<Longrightarrow> talked w1 w2 \<Longrightarrow> talked w w2"
proof -
  assume "talked w w1" "talked w1 w2"
  then obtain n ms n' ms'
    where "w1 = w\<lparr>tty_pos := tty_pos w + n, printed := printed w @ ms\<rparr>"
      and "w2 = w1\<lparr>tty_pos := tty_pos w1 + n', printed := printed w1 @ ms'\<rparr>"
    unfolding talked_def by blast
  then have "w2 = w\<lparr>tty_pos := tty_pos w + (n + n'), printed := printed w @ (ms @ ms')\<rparr>"
    by simp
  then show ?thesis unfolding talked_def by blast
qed

lemma talked_printf: "talked w (printf m w)"
  unfolding talked_def printf_def by (rule exI[of _ 0], rule exI[of _ "[m]"]) simp

lemma talked_printf_after: "talked w w1 \<Longrightarrow> talked w (printf m w1)"
  using talked_trans talked_printf by blast

lemma talked_read_hidden_line: "read_hidden_line w = (l, n, w') \<Longrightarrow> talked w w'"
  unfolding talked_def read_hidden_line_def by (auto intro!: exI[of _ 1] exI[of _ "[]"])

lemma talked_fields:
  assumes "talked w w'"
  shows "efivars w' = efivars w" "edit_fails w' = edit_fails w" "filesys w' = filesys w"
    "tty w' = tty w" "uninit w' = uninit w" "tty_pos w \<le> tty_pos w'"
    "\<exists>ms. printed w' = printed w @ ms"
  using assms unfolding talked_def by auto

lemma get_password_first_talked:
  "get_password_first mn mx fail p l w = (fail', p', l', w') \<Longrightarrow> talked w w'"
proof (induction mn mx fail p l w rule: get_password_first.induct)
  case (1 mn mx fail password_1 len_1 w)
  show ?case
  proof (cases "fail < 3")
    case False
    with 1(2) show ?thesis by (simp add: talked_refl get_password_first.simps[of mn mx fail])
  next
    case True
    obtain line n w1 where rd: "read_hidden_line (printf (Input_password mn mx) w) = (line, n, w1)"
      by (cases "read_hidden_line (printf (Input_password mn mx) w)") auto
    have t1: "talked w w1"
      using talked_trans[OF talked_printf talked_read_hidden_line[OF rd]] .
    show ?thesis
    proof (cases "n > mx \<or> n < mn")
      case bad: True
      with 1(2) True rd
      have "get_password_first mn mx (fail + 1) (Some line) n
              (printf (Password_should_be mn mx) (printf Newline w1)) = (fail', p', l', w')"
        by (simp add: get_password_first.simps[of mn mx fail])
      from 1(1)[OF True rd[symmetric] refl bad this]
      show ?thesis
        using t1 talked_trans talked_printf by blast
    next
      case False
      with 1(2) True rd have "w' = printf Newline w1"
        by (simp add: get_password_first.simps[of mn mx fail])
      with t1 show ?thesis by (simp add: talked_printf_after)
    qed
  qed
qed

lemma get_password_again_talked:
  "get_password_again p1 l1 fail w = (fail', w') \<Longrightarrow> talked w w'"
proof (induction p1 l1 fail w rule: get_password_again.induct)
  case (1 password_1 len_1 fail w)
  show ?case
  proof (cases "fail < 3")
    case False
    with 1(2) show ?thesis by (simp add: talked_refl get_password_again.simps[of _ _ fail])
  next
    case True
    obtain line n w1 where rd: "read_hidden_line (printf Input_password_again w) = (line, n, w1)"
      by (cases "read_hidden_line (printf Input_password_again w)") auto
    have t1: "talked w w1"
      using talked_trans[OF talked_printf talked_read_hidden_line[OF rd]] .
    show ?thesis
    proof (cases "len_1 \<noteq> n \<or> cstr password_1 \<noteq> cstr line")
      case bad: True
      with 1(2) True rd
      have "get_password_again password_1 len_1 (fail + 1)
              (printf Password_doesnt_match (printf Newline w1)) = (fail', w')"
        by (simp add: get_password_again.simps[of _ _ fail])
      from 1(1)[OF True rd[symmetric] refl bad this]
      show ?thesis
        using t1 talked_trans talked_printf by blast
    next
      case False
      with 1(2) True rd have "w' = printf Newline w1"
        by (simp add: get_password_again.simps[of _ _ fail])
      with t1 show ?thesis by (simp add: talked_printf_after)
    qed
  qed
qed

lemma get_password_talked: "get_password mn mx w = (r, w') \<Longrightarrow> talked w w'"
proof -
  assume a: "get_password mn mx w = (r, w')"
  obtain fail p1 l1 w1 where f: "get_password_first mn mx 0 None 0 w = (fail, p1, l1, w1)"
    by (cases "get_password_first mn mx 0 None 0 w") auto
  note t1 = get_password_first_talked[OF f]
  show ?thesis
  proof (cases "fail \<ge> 3 \<or> p1 = None")
    case True
    with a f have "w' = w1" by (auto simp: get_password_def split: option.splits)
    with t1 show ?thesis by simp
  next
    case False
    then obtain pw where pw: "p1 = Some pw" by auto
    obtain fail2 w2 where g: "get_password_again pw l1 0 w1 = (fail2, w2)"
      by (cases "get_password_again pw l1 0 w1") auto
    with a f pw False have "w' = w2" by (auto simp: get_password_def split: if_splits)
    with talked_trans[OF t1 get_password_again_talked[OF g]] show ?thesis by simp
  qed
qed

section \<open>Committing a request\<close>

lemma ulong_of_int_nat: "0 \<le> i \<Longrightarrow> i < 2 ^ 31 \<Longrightarrow> ulong_of_int i = nat i"
  by (simp add: ulong_of_int_def)

text \<open>
  C6.  When the operator has given a new password, the write of the request variable
  succeeds and the write of the tag variable fails, \<^verbatim>\<open>update_request\<close> returns -1 and
  the request variable is gone from the store (every other variable is as before); the
  failure is reported.
\<close>

theorem update_request_rolls_back:
  assumes pw: "fst (get_password PASSWORD_MIN PASSWORD_MAX w) = Some (password, pw_len)"
    and len: "0 \<le> list_len" "list_len < 2 ^ 31" "nat list_len \<le> length new_list"
    and ok: "\<not> edit_fails w (if import then ''MokNew'' else ''MokDel'', ShimLock)"
    and bad: "edit_fails w (if import then ''MokAuth'' else ''MokDelAuth'', ShimLock)"
  shows "\<exists>w'. update_request e (Some new_list) list_len import w = Inr (- 1, w') \<and>
           efivars w' = (efivars w)((if import then ''MokNew'' else ''MokDel'', ShimLock) := None) \<and>
           Failed_to_write (if import then ''MokAuth'' else ''MokDelAuth'') \<in> set (printed w')"
proof -
  obtain w1 where gp: "get_password PASSWORD_MIN PASSWORD_MAX w = (Some (password, pw_len), w1)"
    using pw by (cases "get_password PASSWORD_MIN PASSWORD_MAX w") auto
  note t = talked_fields[OF get_password_talked[OF gp]]
  have u: "ulong_of_int list_len = nat list_len"
    using len by (simp add: ulong_of_int_nat)
  have ga: "generate_auth e (Some new_list) (nat list_len) (Some password) pw_len auth =
        Inr (0, SHA256 e (take (nat list_len) new_list @ utf16le (take 16 (cstr password))))" for auth
    using generate_auth_Some[where new_list = "Some new_list" and list_len = "nat list_len"] len by simp
  show ?thesis
    using gp u ga len ok bad t(1,2)
    by (cases import)
       (simp_all add: update_request_def Let_def read_bytes_def edit_variable_def
          test_and_delete_var_def test_variable_def delete_variable_def printf_def)
qed

theorem update_request_rolls_back_witness:
  "fst (get_password PASSWORD_MIN PASSWORD_MAX tag_refused_world) = Some (''password1'', 9) \<and>
   \<not> edit_fails tag_refused_world (''MokNew'', ShimLock) \<and>
   edit_fails tag_refused_world (''MokAuth'', ShimLock) \<and>
   (\<exists>w'. update_request uefi_externals (Some [1, 2, 3]) 3 True tag_refused_world = Inr (- 1, w') \<and>
         efivars w' (''MokNew'', ShimLock) = None)"
proof -
  have pw: "fst (get_password PASSWORD_MIN PASSWORD_MAX tag_refused_world) = Some (''password1'', 9)"
    by code_simp
  have ok: "\<not> edit_fails tag_refused_world (if True then ''MokNew'' else ''MokDel'', ShimLock)"
    by code_simp
  have bad: "edit_fails tag_refused_world (if True then ''MokAuth'' else ''MokDelAuth'', ShimLock)"
    by code_simp
  from update_request_rolls_back[OF pw _ _ _ ok bad, of 3 "[1, 2, 3]" uefi_externals]
  obtain w' where "update_request uefi_externals (Some [1, 2, 3]) 3 True tag_refused_world = Inr (- 1, w')"
    and "efivars w' = (efivars tag_refused_world)((''MokNew'', ShimLock) := None)"
    by auto
  with pw ok bad show ?thesis by auto
qed

section \<open>Collecting the keys of a request\<close>

lemma write_bytes_first:
  "p + length xs \<le> length buf \<Longrightarrow>
     write_bytes buf p xs = Inr (take p buf @ xs @ drop (p + length xs) buf)"
  by (simp add: write_bytes_def)

lemma write_bytes_next:
  assumes "p + length xs + length ys \<le> length buf"
  shows "write_bytes (take p buf @ xs @ drop (p + length xs) buf) (p + length xs) ys =
           Inr (take p buf @ (xs @ ys) @ drop (p + length (xs @ ys)) buf)"
proof -
  have l: "p \<le> length buf" "p + length xs \<le> length buf" using assms by auto
  have d: "drop (length ys + (p + length xs)) buf = drop (p + (length xs + length ys)) buf"
    by (simp add: ac_simps)
  show ?thesis
    using assms l d by (simp add: write_bytes_def min_absorb2)
qed

lemma write_header:
  assumes "length ct = 16" "p + 44 \<le> length buf"
  shows "write_fields buf
           [(p, ct), (p + 16, put_le32 a), (p + 20, put_le32 b), (p + 24, put_le32 c),
            (p + 28, SHIM_LOCK_GUID)] =
         Inr (take p buf @ (ct @ put_le32 a @ put_le32 b @ put_le32 c @ SHIM_LOCK_GUID) @
              drop (p + 44) buf)"
proof -
  have 1: "write_bytes buf p ct = Inr (take p buf @ ct @ drop (p + length ct) buf)"
    using assms by (simp add: write_bytes_first)
  have 2: "write_bytes (take p buf @ ct @ drop (p + length ct) buf) (p + length ct) (put_le32 a)
            = Inr (take p buf @ (ct @ put_le32 a) @ drop (p + length (ct @ put_le32 a)) buf)"
    using assms by (intro write_bytes_next) (simp add: length_put_le32)
  have 3: "write_bytes (take p buf @ (ct @ put_le32 a) @ drop (p + length (ct @ put_le32 a)) buf)
             (p + length (ct @ put_le32 a)) (put_le32 b)
            = Inr (take p buf @ ((ct @ put_le32 a) @ put_le32 b)
                   @ drop (p + length ((ct @ put_le32 a) @ put_le32 b)) buf)"
    using assms by (intro write_bytes_next) (simp add: length_put_le32)
  have 4: "write_bytes (take p buf @ ((ct @ put_le32 a) @ put_le32 b)
                   @ drop (p + length ((ct @ put_le32 a) @ put_le32 b)) buf)
             (p + length ((ct @ put_le32 a) @ put_le32 b)) (put_le32 c)
            = Inr (take p buf @ (((ct @ put_le32 a) @ put_le32 b) @ put_le32 c)
                   @ drop (p + length (((ct @ put_le32 a) @ put_le32 b) @ put_le32 c)) buf)"
    using assms by (intro write_bytes_next) (simp add: length_put_le32)
  have 5: "write_bytes (take p buf @ (((ct @ put_le32 a) @ put_le32 b) @ put_le32 c)
                   @ drop (p + length (((ct @ put_le32 a) @ put_le32 b) @ put_le32 c)) buf)
             (p + length (((ct @ put_le32 a) @ put_le32 b) @ put_le32 c)) SHIM_LOCK_GUID
            = Inr (take p buf @ ((((ct @ put_le32 a) @ put_le32 b) @ put_le32 c) @ SHIM_LOCK_GUID)
                   @ drop (p + length ((((ct @ put_le32 a) @ put_le32 b) @ put_le32 c) @ SHIM_LOCK_GUID)) buf)"
    using assms by (intro write_bytes_next) (simp add: length_put_le32 length_SHIM_LOCK_GUID)
  from 1 2 3 4 5 assms(1) show ?thesis
    by (simp add: length_put_le32 length_SHIM_LOCK_GUID)
qed

lemma read_bytes_prefix:
  "n \<le> length xs \<Longrightarrow> read_bytes (xs @ ys) 0 n = read_bytes xs 0 n"
  by (simp add: read_bytes_def)

lemma is_duplicate_loop_prefix:
  assumes "length key = unat sz"
  shows "is_duplicate_loop data list (key @ rest) sz = is_duplicate_loop data list key sz"
proof (induction list)
  case Nil
  show ?case by simp
next
  case (Cons node list)
  have "memcmp_eq0 data (mok node) (key @ rest) 0 (unat sz) = memcmp_eq0 data (mok node) key 0 (unat sz)"
    using assms by (simp add: memcmp_eq0_def read_bytes_prefix cong: sum.case_cong)
  with Cons show ?case by (simp cong: sum.case_cong bool.case_cong)
qed

lemma is_duplicate_prefix:
  assumes "length key = unat sz"
  shows "is_duplicate e w (key @ rest) sz name guid = is_duplicate e w key sz name guid"
  by (simp add: is_duplicate_def is_duplicate_loop_prefix[OF assms] cong: sum.case_cong option.case_cong)

lemma is_valid_request_prefix:
  assumes "length key = unat sz"
  shows "is_valid_request e w (key @ rest) sz import = is_valid_request e w key sz import"
  by (simp add: is_valid_request_def is_duplicate_prefix[OF assms])

lemma is_valid_request_efivars:
  assumes "efivars w' = efivars w"
  shows "is_valid_request e w' key sz import = is_valid_request e w key sz import"
  by (simp add: is_valid_request_def is_duplicate_def read_variable_def assms)

lemma same_files:
  assumes "efivars w' = efivars w" "filesys w' = filesys w"
  shows "file_contents w' = file_contents w" "file_size32 w' = file_size32 w"
    "key_read w' = key_read w" "eligible e w' import = eligible e w import"
    "judged e w' import = judged e w import"
    "notices e w' import fs = notices e w import fs"
    "request_bytes e w' import fs = request_bytes e w import fs"
proof -
  show c: "file_contents w' = file_contents w"
    by (rule ext) (simp add: file_contents_def assms)
  show s: "file_size32 w' = file_size32 w"
    by (rule ext) (simp add: file_size32_def c)
  show k: "key_read w' = key_read w"
    by (rule ext) (simp add: key_read_def c s)
  show el: "eligible e w' import = eligible e w import"
    by (rule ext) (simp add: eligible_def k s is_valid_request_efivars[OF assms(1)])
  show "judged e w' import = judged e w import"
    by (rule ext) (simp add: judged_def k s is_valid_request_efivars[OF assms(1)])
  show "notices e w' import fs = notices e w import fs"
    by (induction fs) (simp_all add: k el)
  show "request_bytes e w' import fs = request_bytes e w import fs"
    by (simp add: request_bytes_def k el)
qed

lemma unat_file_size32_le: "unat (file_size32 w f) \<le> length (file_contents w f)"
  by (simp add: file_size32_def unat_of_nat)

lemma length_key_read: "length (key_read w f) = unat (file_size32 w f)"
  using unat_file_size32_le[of w f] by (simp add: key_read_def)

lemma x509_list_key_read:
  "x509_list e (key_read w f) =
     (EfiCertX509Guid e @ put_le32 (file_size32 w f + 44) @ put_le32 0 @
      put_le32 (file_size32 w f + 16) @ SHIM_LOCK_GUID) @ key_read w f"
  by (simp add: x509_list_def length_key_read)

lemma length_x509_list:
  "length (EfiCertX509Guid e) = 16 \<Longrightarrow> length (x509_list e key) = 44 + length key"
  by (simp add: x509_list_def length_put_le32 length_SHIM_LOCK_GUID)

lemma printed_printf: "(printf m w)\<lparr>printed := printed (printf m w) @ ms\<rparr> = w\<lparr>printed := printed w @ m # ms\<rparr>"
  by (simp add: printf_def)

lemma printf_fields:
  "efivars (printf m w) = efivars w" "filesys (printf m w) = filesys w"
  by (simp_all add: printf_def)

lemma fill_loop_step:
  assumes ct: "length (EfiCertX509Guid e) = 16"
    and fc: "filesys w f = Some content"
    and lk: "length (take (unat sz) content) = unat sz"
    and room: "ptr + 44 + unat sz \<le> length buf"
    and iv: "is_valid_request e w (take (unat sz) content) sz import = Some (Inr b)"
    and hdr: "hdr = EfiCertX509Guid e @ put_le32 (sz + 44) @ put_le32 0 @ put_le32 (sz + 16) @ SHIM_LOCK_GUID"
    and buf2: "buf2 = take ptr buf @ (hdr @ take (unat sz) content) @ drop (ptr + 44 + unat sz) buf"
    and w1: "w1 = (if d2i_X509_bio e (take (unat sz) content) then w
                   else printf (Warning_not_a_valid_x509 f) w)"
  shows "fill_loop e import ((f, sz) # rest) buf ptr real w =
           (if b then fill_loop e import rest buf2 (ptr + 44 + unat sz) (real + unat sz + 44) w1
            else fill_loop e import rest buf2 ptr real (printf (Skip f) w1))"
proof -
  let ?key = "take (unat sz) content"
  have lh: "length hdr = 44"
    using ct by (simp add: hdr length_put_le32 length_SHIM_LOCK_GUID)
  have a: "sz + word_of_nat sizeof_EFI_SIGNATURE_LIST + word_of_nat sizeof_EFI_SIGNATURE_DATA - 1
             = sz + 44"
    by (simp add: sizeof_EFI_SIGNATURE_LIST_def sizeof_EFI_SIGNATURE_DATA_def)
  have b: "sz + word_of_nat sizeof_efi_guid_t = sz + 16"
    by (simp add: sizeof_efi_guid_t_def)
  have c: "ptr + sizeof_EFI_SIGNATURE_LIST = ptr + 28"
    by (simp add: sizeof_EFI_SIGNATURE_LIST_def)
  have e1: "ptr + sizeof_EFI_SIGNATURE_LIST + sizeof_efi_guid_t = ptr + 44"
    by (simp add: sizeof_EFI_SIGNATURE_LIST_def sizeof_efi_guid_t_def)
  have e3: "real + unat sz + sizeof_EFI_SIGNATURE_LIST + sizeof_efi_guid_t = real + unat sz + 44"
    by (simp add: sizeof_EFI_SIGNATURE_LIST_def sizeof_efi_guid_t_def)
  have s1: "write_fields buf
             [(ptr, EfiCertX509Guid e), (ptr + 16, put_le32 (sz + 44)), (ptr + 20, put_le32 0),
              (ptr + 24, put_le32 (sz + 16)), (ptr + sizeof_EFI_SIGNATURE_LIST, SHIM_LOCK_GUID)]
            = Inr (take ptr buf @ hdr @ drop (ptr + length hdr) buf)"
    unfolding lh c unfolding hdr
    using room by (intro write_header[OF ct]) simp
  have s2: "write_bytes (take ptr buf @ hdr @ drop (ptr + length hdr) buf) (ptr + 44) ?key = Inr buf2"
  proof -
    have "ptr + length hdr + length ?key \<le> length buf" using room lh lk by simp
    from write_bytes_next[OF this] show ?thesis
      unfolding buf2 length_append lh lk by (simp only: add.assoc)
  qed
  have d2: "drop (ptr + 44) buf2 = ?key @ drop (ptr + 44 + unat sz) buf"
  proof -
    have "length (take ptr buf) = ptr" using room by simp
    then have "drop (ptr + 44) (take ptr buf @ (hdr @ ?key @ drop (ptr + 44 + unat sz) buf))
            = drop 44 (hdr @ ?key @ drop (ptr + 44 + unat sz) buf)"
      by (simp only: drop_append) simp
    also have "\<dots> = ?key @ drop (ptr + 44 + unat sz) buf"
      using lh by simp
    finally show ?thesis unfolding buf2 by (simp only: append_assoc)
  qed
  have iv': "is_valid_request e w1 (drop (ptr + 44) buf2) sz import = Some (Inr b)"
  proof -
    have "efivars w1 = efivars w" by (simp add: w1 printf_def)
    from is_valid_request_efivars[OF this] is_valid_request_prefix[OF lk] iv d2
    show ?thesis by simp
  qed
  show ?thesis
    apply (subst fill_loop.simps)
    unfolding a b e1 e3
    apply (simp only: s1 sum.case fc option.case s2 lk Let_def w1[symmetric] iv')
    apply (cases b)
     apply (simp_all only: bool.case if_True if_False simp_thms)
    done
qed

lemma judged_cases:
  assumes "judged e w import f"
  shows "is_valid_request e w (key_read w f) (file_size32 w f) import = Some (Inr (eligible e w import f))"
  using assms unfolding judged_def eligible_def
  by (auto split: option.splits sum.splits)

lemma eligible_judged: "eligible e w import f \<Longrightarrow> judged e w import f"
  by (simp add: eligible_def judged_def)

lemma is_valid_request_no_vars:
  "efivars w = Map.empty \<Longrightarrow> is_valid_request e w key sz True = Some (Inr True)"
  by (simp add: is_valid_request_def is_duplicate_def read_variable_def or_else_def negate_def)

lemma take_length_append: "length xs = n \<Longrightarrow> take n (xs @ ys) = xs"
  by simp

lemma fill_loop_run:
  assumes ct: "length (EfiCertX509Guid e) = 16"
    and ex: "\<forall>f\<in>set fs. filesys w f \<noteq> None"
    and jd: "\<forall>f\<in>set fs. judged e w import f"
    and room: "ptr + (\<Sum>f\<leftarrow>fs. 44 + unat (file_size32 w f)) \<le> length buf"
  shows "\<exists>buf'. fill_loop e import (map (\<lambda>f. (f, file_size32 w f)) fs) buf ptr real w =
            Some (Inr (w\<lparr>printed := printed w @ notices e w import fs\<rparr>,
                       Some (buf', real + length (request_bytes e w import fs)))) \<and>
          length buf' = length buf \<and>
          take (ptr + length (request_bytes e w import fs)) buf' =
            take ptr buf @ request_bytes e w import fs"
  using ex jd room
proof (induction fs arbitrary: buf ptr real w)
  case Nil
  then show ?case by (simp add: request_bytes_def)
next
  case (Cons f fs)
  define sz where "sz = file_size32 w f"
  define key where "key = key_read w f"
  define hdr where "hdr = EfiCertX509Guid e @ put_le32 (sz + 44) @ put_le32 0 @ put_le32 (sz + 16) @ SHIM_LOCK_GUID"
  define buf2 where "buf2 = take ptr buf @ (hdr @ key) @ drop (ptr + 44 + unat sz) buf"
  define w1 where "w1 = (if d2i_X509_bio e key then w else printf (Warning_not_a_valid_x509 f) w)"
  define b where "b = eligible e w import f"
  define rb where "rb = request_bytes e w import fs"
  define S where "S = (\<Sum>f\<leftarrow>fs. 44 + unat (file_size32 w f))"
  have lk: "length key = unat sz" unfolding key_def sz_def by (rule length_key_read)
  have lh: "length hdr = 44" using ct by (simp add: hdr_def length_put_le32 length_SHIM_LOCK_GUID)
  have rec: "x509_list e key = hdr @ key"
    unfolding key_def hdr_def sz_def by (simp add: x509_list_key_read)
  from Cons.prems(3) have room1: "ptr + 44 + unat sz \<le> length buf"
    and room2: "ptr + 44 + unat sz + S \<le> length buf"
    and room3: "ptr + S \<le> length buf"
    by (simp_all add: sz_def S_def)
  obtain content where fc: "filesys w f = Some content" using Cons.prems(1) by auto
  then have keyc: "key = take (unat sz) content"
    by (simp add: key_def sz_def key_read_def file_contents_def)
  have iv: "is_valid_request e w (take (unat sz) content) sz import = Some (Inr b)"
  proof -
    have jf: "judged e w import f" using Cons.prems(2) by simp
    have "key_read w f = take (unat (file_size32 w f)) content"
      using fc by (simp add: key_read_def file_contents_def)
    with judged_cases[OF jf] show ?thesis by (simp add: sz_def b_def)
  qed
  have step: "fill_loop e import ((f, sz) # map (\<lambda>f. (f, file_size32 w f)) fs) buf ptr real w =
           (if b then fill_loop e import (map (\<lambda>f. (f, file_size32 w f)) fs) buf2
                        (ptr + 44 + unat sz) (real + unat sz + 44) w1
            else fill_loop e import (map (\<lambda>f. (f, file_size32 w f)) fs) buf2 ptr real
                   (printf (Skip f) w1))"
    by (rule fill_loop_step[OF ct fc _ room1 iv])
       (simp_all only: lk[unfolded keyc] hdr_def buf2_def keyc w1_def)
  have l2: "length buf2 = length buf" using room1 lh lk by (simp add: buf2_def)
  have lp: "length (take ptr buf) = ptr" using room1 by simp
  have w1f: "efivars w1 = efivars w" "filesys w1 = filesys w"
    by (simp_all add: w1_def printf_def)
  have wsf: "efivars (printf (Skip f) w1) = efivars w" "filesys (printf (Skip f) w1) = filesys w"
    using w1f by (simp_all add: printf_def)
  show ?case
  proof (cases b)
    case True
    note sf = same_files[OF w1f]
    have ex': "\<forall>f\<in>set fs. filesys w1 f \<noteq> None" using Cons.prems(1) w1f by simp
    have jd': "\<forall>f\<in>set fs. judged e w1 import f" using Cons.prems(2) sf by simp
    have room': "(ptr + 44 + unat sz) + (\<Sum>f\<leftarrow>fs. 44 + unat (file_size32 w1 f)) \<le> length buf2"
      using room2 l2 sf by (simp add: S_def)
    from Cons.IH[OF ex' jd' room', of "real + unat sz + 44"]
    obtain buf' where
      run: "fill_loop e import (map (\<lambda>f. (f, file_size32 w f)) fs) buf2 (ptr + 44 + unat sz)
              (real + unat sz + 44) w1 =
            Some (Inr (w1\<lparr>printed := printed w1 @ notices e w import fs\<rparr>,
                       Some (buf', real + unat sz + 44 + length rb)))"
      and len: "length buf' = length buf2"
      and tk: "take (ptr + 44 + unat sz + length rb) buf' = take (ptr + 44 + unat sz) buf2 @ rb"
      unfolding sf rb_def by blast
    have rbc: "request_bytes e w import (f # fs) = (hdr @ key) @ rb"
      using True rec by (simp add: request_bytes_def b_def key_def rb_def)
    have lrb: "length (request_bytes e w import (f # fs)) = 44 + unat sz + length rb"
      using rbc lh lk by simp
    have "take (ptr + 44 + unat sz) buf2 = take ptr buf @ (hdr @ key)"
    proof -
      have "length (take ptr buf @ (hdr @ key)) = ptr + 44 + unat sz" using lp lh lk by simp
      from take_length_append[OF this] show ?thesis
        unfolding buf2_def by (simp only: append_assoc)
    qed
    with tk have tk': "take (ptr + 44 + unat sz + length rb) buf' = take ptr buf @ (hdr @ key) @ rb"
      by simp
    have wfin: "w1\<lparr>printed := printed w1 @ notices e w import fs\<rparr> =
                w\<lparr>printed := printed w @ notices e w import (f # fs)\<rparr>"
      using True by (simp add: w1_def printf_def b_def key_def)
    have e1: "real + unat sz + 44 + length rb = real + length (request_bytes e w import (f # fs))"
      using lrb by simp
    have e2: "ptr + 44 + unat sz + length rb = ptr + length (request_bytes e w import (f # fs))"
      using lrb by simp
    show ?thesis
      apply (rule exI[of _ buf'])
      unfolding list.map sz_def[symmetric] step
      using True run len l2 tk'
      unfolding e1 e2 wfin rbc
      by (simp only: if_True simp_thms append_assoc)
  next
    case False
    note sf = same_files[OF wsf]
    have ex': "\<forall>g\<in>set fs. filesys (printf (Skip f) w1) g \<noteq> None"
      using Cons.prems(1) wsf by simp
    have jd': "\<forall>g\<in>set fs. judged e (printf (Skip f) w1) import g" using Cons.prems(2) sf by simp
    have room': "ptr + (\<Sum>g\<leftarrow>fs. 44 + unat (file_size32 (printf (Skip f) w1) g)) \<le> length buf2"
      using room3 l2 sf by (simp add: S_def)
    from Cons.IH[OF ex' jd' room', of real]
    obtain buf' where
      run: "fill_loop e import (map (\<lambda>f. (f, file_size32 w f)) fs) buf2 ptr real (printf (Skip f) w1) =
            Some (Inr ((printf (Skip f) w1)\<lparr>printed := printed (printf (Skip f) w1) @ notices e w import fs\<rparr>,
                       Some (buf', real + length rb)))"
      and len: "length buf' = length buf2"
      and tk: "take (ptr + length rb) buf' = take ptr buf2 @ rb"
      unfolding sf rb_def by blast
    have rbc: "request_bytes e w import (f # fs) = rb"
      using False by (simp add: request_bytes_def b_def rb_def)
    have "take ptr buf2 = take ptr buf"
      by (simp only: buf2_def take_length_append[OF lp])
    with tk have tk': "take (ptr + length rb) buf' = take ptr buf @ rb" by simp
    have wfin: "(printf (Skip f) w1)\<lparr>printed := printed (printf (Skip f) w1) @ notices e w import fs\<rparr> =
                w\<lparr>printed := printed w @ notices e w import (f # fs)\<rparr>"
      using False by (simp add: w1_def printf_def b_def key_def)
    show ?thesis
      apply (rule exI[of _ buf'])
      unfolding list.map sz_def[symmetric] step
      using False run len l2 tk'
      unfolding wfin rbc
      by (simp only: if_False simp_thms)
  qed
qed

lemma stat_loop_run:
  "\<forall>f\<in>set fs. filesys w f \<noteq> None \<Longrightarrow>
     stat_loop w fs sizes n =
       Inr (sizes @ map (file_size32 w) fs, n + (\<Sum>f\<leftarrow>fs. length (file_contents w f)))"
proof (induction fs arbitrary: sizes n)
  case Nil
  show ?case by simp
next
  case (Cons f fs)
  then obtain c where c: "filesys w f = Some c" by auto
  with Cons show ?case
    by (simp add: file_size32_def file_contents_def)
qed

lemma zip_map_self: "zip fs (map g fs) = map (\<lambda>f. (f, g f)) fs"
  by (induction fs) simp_all

lemma room_for_all:
  "(\<Sum>f\<leftarrow>fs. 44 + unat (file_size32 w f)) \<le>
     (\<Sum>f\<leftarrow>fs. length (file_contents w f)) + 28 * length fs + 16 * length fs"
proof (induction fs)
  case Nil
  show ?case by simp
next
  case (Cons f fs)
  with unat_file_size32_le[of w f] show ?case by simp
qed

lemma length_malloc: "length (malloc w n) = n"
  by (simp add: malloc_def)

lemma collect_request_run:
  assumes ct: "length (EfiCertX509Guid e) = 16"
    and ex: "\<forall>f\<in>set fs. filesys w f \<noteq> None"
    and jd: "\<forall>f\<in>set fs. judged e w import f"
  shows "\<exists>buf. collect_request e fs import w =
            Some (Inr (w\<lparr>printed := printed w @ notices e w import fs\<rparr>,
                       Some (buf, length (request_bytes e w import fs)))) \<and>
          take (length (request_bytes e w import fs)) buf = request_bytes e w import fs \<and>
          length (request_bytes e w import fs)
            + (case efivars w (if import then ''MokNew'' else ''MokDel'', ShimLock) of
                 None \<Rightarrow> 0 | Some old \<Rightarrow> length old) \<le> length buf"
proof -
  define old_len where "old_len =
     (case read_variable w (if import then ''MokNew'' else ''MokDel'') ShimLock of
        None \<Rightarrow> 0 | Some old \<Rightarrow> length old)"
  define n where "n = (\<Sum>f\<leftarrow>fs. length (file_contents w f)) + sizeof_EFI_SIGNATURE_LIST * length fs
                       + sizeof_efi_guid_t * length fs + old_len"
  have room: "0 + (\<Sum>f\<leftarrow>fs. 44 + unat (file_size32 w f)) \<le> length (malloc w n)"
    using room_for_all[where fs = fs and w = w]
    by (simp add: length_malloc n_def sizeof_EFI_SIGNATURE_LIST_def sizeof_efi_guid_t_def)
  from fill_loop_run[OF ct ex jd room, of 0]
  obtain buf where
    run: "fill_loop e import (map (\<lambda>f. (f, file_size32 w f)) fs) (malloc w n) 0 0 w =
            Some (Inr (w\<lparr>printed := printed w @ notices e w import fs\<rparr>,
                       Some (buf, length (request_bytes e w import fs))))"
    and len: "length buf = n"
    and tk: "take (length (request_bytes e w import fs)) buf = request_bytes e w import fs"
    by (auto simp: length_malloc)
  have "length (request_bytes e w import fs) = length (take (length (request_bytes e w import fs)) buf)"
    using tk by simp
  then have le: "length (request_bytes e w import fs) \<le> length buf" by simp
  have "collect_request e fs import w =
          fill_loop e import (map (\<lambda>f. (f, file_size32 w f)) fs) (malloc w n) 0 0 w"
    unfolding collect_request_def
    by (simp add: stat_loop_run[OF ex] zip_map_self Let_def n_def old_len_def)
  moreover have "length (request_bytes e w import fs) + old_len \<le> length buf"
  proof -
    have "length (request_bytes e w import fs) \<le> (\<Sum>f\<leftarrow>fs. 44 + unat (file_size32 w f))"
      using ct
    proof (induction fs)
      case Nil
      show ?case by (simp add: request_bytes_def)
    next
      case (Cons f fs)
      then show ?case
        by (simp add: request_bytes_def length_x509_list length_key_read)
    qed
    with room_for_all[where fs = fs and w = w] show ?thesis
      by (simp add: len n_def sizeof_EFI_SIGNATURE_LIST_def sizeof_efi_guid_t_def)
  qed
  ultimately show ?thesis
    using run tk by (auto simp: old_len_def read_variable_def)
qed

lemma memcmp_eq0_32:
  "length a = 32 \<Longrightarrow> length b = 32 \<Longrightarrow> memcmp_eq0 a 0 b 0 SHA256_DIGEST_LENGTH = Inr (a = b)"
  by (simp add: memcmp_eq0_def read_bytes_def SHA256_DIGEST_LENGTH_def)

lemma request_bytes_empty:
  "\<forall>f\<in>set fs. \<not> eligible e w import f \<Longrightarrow> request_bytes e w import fs = []"
  by (induction fs) (simp_all add: request_bytes_def)

lemma request_bytes_nonempty:
  assumes "length (EfiCertX509Guid e) = 16" "f \<in> set fs" "eligible e w import f"
  shows "0 < length (request_bytes e w import fs)"
proof -
  have "f \<in> set (filter (eligible e w import) fs)" using assms by simp
  then obtain xs ys where "filter (eligible e w import) fs = xs @ f # ys"
    by (meson split_list)
  then show ?thesis
    using assms(1) by (simp add: request_bytes_def length_x509_list)
qed

lemma notices_kinds:
  "set (notices e w import fs) \<subseteq> Skip ` set fs \<union> Warning_not_a_valid_x509 ` set fs"
  by (induction fs) auto



text \<open>
  C9.  When every file exists and \<^verbatim>\<open>is_valid_request\<close> returns 0 on each of them,
  \<^verbatim>\<open>issue_mok_request\<close> returns 0 and leaves the world as it was but for what it printed,
  which is a skip notice for each file and possibly a warning about its format: no
  variable is written, no line is read from the terminal and no password prompt is
  printed.
\<close>

theorem nothing_eligible_is_a_no_op:
  assumes ct: "length (EfiCertX509Guid e) = 16"
    and ex: "\<forall>f\<in>set fs. filesys w f \<noteq> None"
    and none: "\<forall>f\<in>set fs.
                 is_valid_request e w (key_read w f) (file_size32 w f) import = Some (Inr False)"
  shows "issue_mok_request e (Some fs) import w =
           Some (Inr (0, w\<lparr>printed := printed w @ notices e w import fs\<rparr>)) \<and>
         set (notices e w import fs) \<subseteq> Skip ` set fs \<union> Warning_not_a_valid_x509 ` set fs"
proof -
  have jd: "\<forall>f\<in>set fs. judged e w import f" using none by (simp add: judged_def)
  have "\<forall>f\<in>set fs. \<not> eligible e w import f" using none by (simp add: eligible_def)
  then have rb: "request_bytes e w import fs = []" by (rule request_bytes_empty)
  from collect_request_run[OF ct ex jd]
  obtain buf where "collect_request e fs import w =
            Some (Inr (w\<lparr>printed := printed w @ notices e w import fs\<rparr>, Some (buf, 0)))"
    unfolding rb by auto
  then show ?thesis
    by (simp add: issue_mok_request_def commit_request_def notices_kinds)
qed


theorem nothing_eligible_is_a_no_op_witness:
  "issue_mok_request uefi_externals (Some [''A.der'']) True two_files_world =
     Some (Inr (0, two_files_world\<lparr>printed := [Skip ''A.der'']\<rparr>))"
proof -
  have ct: "length (EfiCertX509Guid uefi_externals) = 16"
    by code_simp
  have ex: "\<forall>f\<in>set [''A.der'']. filesys two_files_world f \<noteq> None"
    by code_simp
  have none: "\<forall>f\<in>set [''A.der''].
      is_valid_request uefi_externals two_files_world (key_read two_files_world f)
        (file_size32 two_files_world f) True = Some (Inr False)"
    by code_simp
  have n: "notices uefi_externals two_files_world True [''A.der''] = [Skip ''A.der'']"
    by code_simp
  have p: "printed two_files_world = []"
    by (simp add: two_files_world_def db_world_def quiet_world_def)
  from nothing_eligible_is_a_no_op[OF ct ex none, unfolded n p] show ?thesis
    by simp
qed


section \<open>The dialogue with the operator, line by line\<close>

text \<open>
  What the three loops that read passwords do with the lines of the terminal: the
  challenge for a pending request answered after some wrong guesses, the challenge
  failed by three wrong guesses, a new password chosen after some lines that are not
  acceptable and repeated after some lines that differ.
\<close>

lemma upt_shift:
  assumes "\<forall>x\<in>set [0..<Suc m]. P (p + x)"
  shows "P p" "\<forall>x\<in>set [0..<m]. P (Suc p + x)"
proof -
  from assms have a: "\<And>x. x < Suc m \<Longrightarrow> P (p + x)" unfolding set_upt by auto
  from a[of 0] show "P p" by simp
  show "\<forall>x\<in>set [0..<m]. P (Suc p + x)"
  proof
    fix x assume "x \<in> set [0..<m]"
    then have "Suc x < Suc m" by simp
    from a[OF this] show "P (Suc p + x)" by simp
  qed
qed

lemma generate_auth_line:
  "generate_auth e (Some old) (length old) (Some line) pl auth =
     Inr (0, SHA256 e (old @ utf16le (take 16 (cstr line))))"
  using generate_auth_Some[where new_list = "Some old" and list_len = "length old"] by simp


lemma verify_old_req_loop_wrong:
  assumes sha: "\<forall>x. length (SHA256 e x) = 32" and tag: "length tag = 32"
    and n: "n = 3 - fail"
    and wrong: "\<forall>x\<in>set [0..<n]. wrong_guess e old tag (tty w (tty_pos w + x))"
  shows "\<exists>ms. verify_old_req_loop e old (length old) tag fail False w =
           Inr (0, w\<lparr>tty_pos := tty_pos w + n, printed := printed w @ ms\<rparr>)"
  using n wrong
proof (induction n arbitrary: fail w)
  case 0
  then have "\<not> fail < 3" by simp
  then have "verify_old_req_loop e old (length old) tag fail False w =
               Inr (0, w\<lparr>tty_pos := tty_pos w + 0, printed := printed w @ []\<rparr>)"
    by (subst verify_old_req_loop.simps) simp
  then show ?case by blast
next
  case (Suc n)
  define line where "line = tty w (tty_pos w)"
  let ?w = "printf Newline ((printf Input_old_password w)\<lparr>tty_pos := Suc (tty_pos w)\<rparr>)"
  note sh = upt_shift[where P = "\<lambda>n. wrong_guess e old tag (tty w n)", OF Suc.prems(2)]
  have wg: "acceptable line" "SHA256 e (old @ utf16le (take 16 (cstr line))) \<noteq> tag"
    using sh(1) by (simp_all add: wrong_guess_def line_def)
  have ok: "\<not> (int (length line) > PASSWORD_MAX \<or> int (length line) < PASSWORD_MIN)"
    using wg(1) by (auto simp: acceptable_def)
  have f: "tty ?w = tty w" "tty_pos ?w = Suc (tty_pos w)"
    by (simp_all add: printf_def)
  have "n = 3 - (fail + 1)" using Suc.prems(1) by simp
  moreover have "\<forall>x\<in>set [0..<n]. wrong_guess e old tag (tty ?w (tty_pos ?w + x))"
    using sh(2) by (simp add: f)
  ultimately obtain ms where
    r: "verify_old_req_loop e old (length old) tag (fail + 1) False ?w =
          Inr (0, ?w\<lparr>tty_pos := tty_pos ?w + n, printed := printed ?w @ ms\<rparr>)"
    using Suc.IH by blast
  have lt: "fail < 3" using Suc.prems(1) by simp
  have "verify_old_req_loop e old (length old) tag fail False w =
          verify_old_req_loop e old (length old) tag (fail + 1) False ?w"
    using lt ok wg(2) sha tag
    by (subst verify_old_req_loop.simps)
       (simp add: read_hidden_line_def printf_def line_def[symmetric] generate_auth_line memcmp_eq0_32)
  also have "\<dots> = Inr (0, w\<lparr>tty_pos := tty_pos w + Suc n,
                             printed := printed w @ (Input_old_password # Newline # ms)\<rparr>)"
    unfolding r by (simp add: printf_def)
  finally show ?case by blast
qed

lemma get_password_first_chosen:
  assumes j: "fail + j < 3"
    and bad: "\<forall>x\<in>set [0..<j]. \<not> acceptable (tty w (tty_pos w + x))"
    and good: "acceptable (tty w (tty_pos w + j))"
  shows "\<exists>ms. get_password_first PASSWORD_MIN PASSWORD_MAX fail p l w =
           (fail + j, Some (tty w (tty_pos w + j)), int (length (tty w (tty_pos w + j))),
            w\<lparr>tty_pos := tty_pos w + j + 1, printed := printed w @ ms\<rparr>)"
  using j bad good
proof (induction j arbitrary: fail p l w)
  case 0
  define line where "line = tty w (tty_pos w)"
  have ok: "\<not> (int (length line) > PASSWORD_MAX \<or> int (length line) < PASSWORD_MIN)"
    using 0(3) by (auto simp: acceptable_def line_def)
  have "get_password_first PASSWORD_MIN PASSWORD_MAX fail p l w =
          (fail + 0, Some line, int (length line),
           w\<lparr>tty_pos := tty_pos w + 0 + 1,
             printed := printed w @ [Input_password PASSWORD_MIN PASSWORD_MAX, Newline]\<rparr>)"
    using 0(1) ok
    by (subst get_password_first.simps)
       (simp add: read_hidden_line_def printf_def line_def[symmetric])
  then show ?case unfolding line_def by (simp only: add_0_right) blast
next
  case (Suc j)
  define line where "line = tty w (tty_pos w)"
  let ?w = "printf (Password_should_be PASSWORD_MIN PASSWORD_MAX)
              (printf Newline ((printf (Input_password PASSWORD_MIN PASSWORD_MAX) w)
                 \<lparr>tty_pos := Suc (tty_pos w)\<rparr>))"
  note sh = upt_shift[where P = "\<lambda>n. \<not> acceptable (tty w n)", OF Suc.prems(2)]
  have bad: "int (length line) > PASSWORD_MAX \<or> int (length line) < PASSWORD_MIN"
    using sh(1) by (auto simp: acceptable_def line_def)
  have f: "tty ?w = tty w" "tty_pos ?w = Suc (tty_pos w)"
    by (simp_all add: printf_def)
  have "fail + 1 + j < 3" using Suc.prems(1) by simp
  moreover have "\<forall>x\<in>set [0..<j]. \<not> acceptable (tty ?w (tty_pos ?w + x))"
    using sh(2) by (simp add: f)
  moreover have "acceptable (tty ?w (tty_pos ?w + j))"
    using Suc.prems(3) by (simp add: f)
  ultimately obtain ms where
    r: "get_password_first PASSWORD_MIN PASSWORD_MAX (fail + 1) (Some line) (int (length line)) ?w =
          (fail + 1 + j, Some (tty ?w (tty_pos ?w + j)), int (length (tty ?w (tty_pos ?w + j))),
           ?w\<lparr>tty_pos := tty_pos ?w + j + 1, printed := printed ?w @ ms\<rparr>)"
    using Suc.IH by blast
  have lt: "fail < 3" using Suc.prems(1) by simp
  have "get_password_first PASSWORD_MIN PASSWORD_MAX fail p l w =
          get_password_first PASSWORD_MIN PASSWORD_MAX (fail + 1) (Some line) (int (length line)) ?w"
    using lt bad
    by (subst get_password_first.simps)
       (simp add: read_hidden_line_def printf_def line_def[symmetric])
  also have "\<dots> = (fail + Suc j, Some (tty w (tty_pos w + Suc j)),
                     int (length (tty w (tty_pos w + Suc j))),
                     w\<lparr>tty_pos := tty_pos w + Suc j + 1,
                       printed := printed w @ (Input_password PASSWORD_MIN PASSWORD_MAX # Newline #
                                    Password_should_be PASSWORD_MIN PASSWORD_MAX # ms)\<rparr>)"
    unfolding r by (simp add: printf_def)
  finally show ?case by blast
qed

lemma get_password_again_chosen:
  assumes i: "fail + i < 3"
    and bad: "\<forall>x\<in>set [0..<i]. \<not> repeats pw (tty w (tty_pos w + x))"
    and good: "repeats pw (tty w (tty_pos w + i))"
  shows "\<exists>ms. get_password_again pw (int (length pw)) fail w =
           (fail + i, w\<lparr>tty_pos := tty_pos w + i + 1, printed := printed w @ ms\<rparr>)"
  using i bad good
proof (induction i arbitrary: fail w)
  case 0
  define line where "line = tty w (tty_pos w)"
  have ok: "\<not> (int (length pw) \<noteq> int (length line) \<or> cstr pw \<noteq> cstr line)"
    using 0(3) by (auto simp: repeats_def line_def)
  have "get_password_again pw (int (length pw)) fail w =
          (fail + 0, w\<lparr>tty_pos := tty_pos w + 0 + 1,
                       printed := printed w @ [Input_password_again, Newline]\<rparr>)"
    using 0(1) ok
    by (subst get_password_again.simps)
       (simp add: read_hidden_line_def printf_def line_def[symmetric])
  then show ?case by blast
next
  case (Suc i)
  define line where "line = tty w (tty_pos w)"
  let ?w = "printf Password_doesnt_match
              (printf Newline ((printf Input_password_again w)\<lparr>tty_pos := Suc (tty_pos w)\<rparr>))"
  note sh = upt_shift[where P = "\<lambda>n. \<not> repeats pw (tty w n)", OF Suc.prems(2)]
  have bad: "int (length pw) \<noteq> int (length line) \<or> cstr pw \<noteq> cstr line"
    using sh(1) by (auto simp: repeats_def line_def)
  have f: "tty ?w = tty w" "tty_pos ?w = Suc (tty_pos w)"
    by (simp_all add: printf_def)
  have "fail + 1 + i < 3" using Suc.prems(1) by simp
  moreover have "\<forall>x\<in>set [0..<i]. \<not> repeats pw (tty ?w (tty_pos ?w + x))"
    using sh(2) by (simp add: f)
  moreover have "repeats pw (tty ?w (tty_pos ?w + i))"
    using Suc.prems(3) by (simp add: f)
  ultimately obtain ms where
    r: "get_password_again pw (int (length pw)) (fail + 1) ?w =
          (fail + 1 + i, ?w\<lparr>tty_pos := tty_pos ?w + i + 1, printed := printed ?w @ ms\<rparr>)"
    using Suc.IH by blast
  have lt: "fail < 3" using Suc.prems(1) by simp
  have "get_password_again pw (int (length pw)) fail w =
          get_password_again pw (int (length pw)) (fail + 1) ?w"
    using lt bad
    by (subst get_password_again.simps)
       (simp add: read_hidden_line_def printf_def line_def[symmetric])
  also have "\<dots> = (fail + Suc i, w\<lparr>tty_pos := tty_pos w + Suc i + 1,
                       printed := printed w @ (Input_password_again # Newline #
                                    Password_doesnt_match # ms)\<rparr>)"
    unfolding r by (simp add: printf_def)
  finally show ?case by blast
qed

lemma get_password_chooses:
  assumes ch: "chooses w (tty_pos w) j i pw"
  shows "\<exists>ms. get_password PASSWORD_MIN PASSWORD_MAX w =
           (Some (pw, int (length pw)),
            w\<lparr>tty_pos := tty_pos w + j + i + 2, printed := printed w @ ms\<rparr>)"
proof -
  from ch have j: "0 + j < 3" and i: "0 + i < 3"
    and bad1: "\<forall>x\<in>set [0..<j]. \<not> acceptable (tty w (tty_pos w + x))"
    and pw: "tty w (tty_pos w + j) = pw" and good1: "acceptable pw"
    and bad2: "\<forall>x\<in>set [0..<i]. \<not> repeats pw (tty w (tty_pos w + j + 1 + x))"
    and good2: "repeats pw (tty w (tty_pos w + j + 1 + i))"
    by (simp_all add: chooses_def)
  from get_password_first_chosen[OF j bad1, of None 0] good1 pw
  obtain ms1 where
    1: "get_password_first PASSWORD_MIN PASSWORD_MAX 0 None 0 w =
          (j, Some pw, int (length pw), w\<lparr>tty_pos := tty_pos w + j + 1, printed := printed w @ ms1\<rparr>)"
    by auto
  let ?w1 = "w\<lparr>tty_pos := tty_pos w + j + 1, printed := printed w @ ms1\<rparr>"
  have "\<forall>x\<in>set [0..<i]. \<not> repeats pw (tty ?w1 (tty_pos ?w1 + x))"
    using bad2 by simp
  moreover have "repeats pw (tty ?w1 (tty_pos ?w1 + i))"
    using good2 by simp
  ultimately obtain ms2 where
    2: "get_password_again pw (int (length pw)) 0 ?w1 =
          (i, ?w1\<lparr>tty_pos := tty_pos ?w1 + i + 1, printed := printed ?w1 @ ms2\<rparr>)"
    using get_password_again_chosen[OF i, of pw ?w1] by auto
  have "get_password PASSWORD_MIN PASSWORD_MAX w =
          (Some (pw, int (length pw)),
           w\<lparr>tty_pos := tty_pos w + j + i + 2, printed := printed w @ (ms1 @ ms2)\<rparr>)"
    using j i 2 unfolding get_password_def 1 by simp
  then show ?thesis by blast
qed

section \<open>A failed challenge\<close>

text \<open>
  When a pending request exists with a stored 32-byte tag, at least one file is eligible
  and the operator makes three wrong guesses at the old password, each of an acceptable
  length, \<^verbatim>\<open>issue_mok_request\<close> returns -1 and the world is what it was but for the
  lines read and the messages printed: no variable is written.
\<close>

lemma wrong_guesses_abort:
  assumes ct: "length (EfiCertX509Guid e) = 16"
    and sha: "\<forall>x. length (SHA256 e x) = 32"
    and ex: "\<forall>f\<in>set fs. filesys w f \<noteq> None"
    and jd: "\<forall>f\<in>set fs. judged e w import f"
    and some: "\<exists>f\<in>set fs. eligible e w import f"
    and prior: "efivars w (if import then ''MokNew'' else ''MokDel'', ShimLock) = Some old"
    and tag: "efivars w (if import then ''MokAuth'' else ''MokDelAuth'', ShimLock) = Some tag"
             "length tag = 32"
    and wrong: "\<forall>x\<in>set [0..<3]. wrong_guess e old tag (tty w (tty_pos w + x))"
  shows "\<exists>ms. issue_mok_request e (Some fs) import w =
           Some (Inr (- 1, w\<lparr>tty_pos := tty_pos w + 3, printed := printed w @ ms\<rparr>))"
proof -
  define w1 where "w1 = w\<lparr>printed := printed w @ notices e w import fs\<rparr>"
  from collect_request_run[OF ct ex jd]
  obtain buf where cr: "collect_request e fs import w =
            Some (Inr (w1, Some (buf, length (request_bytes e w import fs))))"
    unfolding w1_def by auto
  from some ct have pos: "0 < length (request_bytes e w import fs)"
    using request_bytes_nonempty by blast
  have f1: "tty w1 = tty w" "tty_pos w1 = tty_pos w" "efivars w1 = efivars w"
    by (simp_all add: w1_def)
  have "\<forall>x\<in>set [0..<3]. wrong_guess e old tag (tty w1 (tty_pos w1 + x))"
    using wrong f1 by simp
  from verify_old_req_loop_wrong[OF sha tag(2) _ this, of 0]
  obtain ms where v: "verify_old_req_loop e old (length old) tag 0 False w1 =
      Inr (0, w1\<lparr>tty_pos := tty_pos w1 + 3, printed := printed w1 @ ms\<rparr>)"
    by auto
  have "verify_old_req e old (length old) import w1 =
          Inr (0, w1\<lparr>tty_pos := tty_pos w1 + 3, printed := printed w1 @ ms\<rparr>)"
    using v tag(1) f1 by (cases import) (simp_all add: verify_old_req_def read_variable_def)
  then have "commit_request e import (Some old) buf (length (request_bytes e w import fs)) w1
               = Inr (- 1, w1\<lparr>tty_pos := tty_pos w1 + 3, printed := printed w1 @ ms\<rparr>)"
    using pos by (simp add: commit_request_def)
  then have "issue_mok_request e (Some fs) import w =
      Some (Inr (- 1, w\<lparr>tty_pos := tty_pos w + 3,
                       printed := printed w @ (notices e w import fs @ ms)\<rparr>))"
    using cr prior by (simp add: issue_mok_request_def read_variable_def w1_def)
  then show ?thesis by blast
qed

text \<open>
  So it is in the world with the pending request, whose operator types \<open>password1\<close>
  three times.
\<close>

lemma wrong_guesses_abort_example:
  "\<exists>ms. issue_mok_request uefi_externals (Some [''A.der'', ''B.der'']) True pending_world =
          Some (Inr (- 1, pending_world\<lparr>tty_pos := 3, printed := ms\<rparr>))"
proof -
  let ?old = "x509_list uefi_externals [9, 9]"
  let ?tag = "SHA256 uefi_externals (x509_list uefi_externals [9, 9] @ utf16le ''correct horse'')"
  have ct: "length (EfiCertX509Guid uefi_externals) = 16"
    by code_simp
  have sha: "\<forall>x. length (SHA256 uefi_externals x) = 32"
    by (auto simp: uefi_externals_def)
  have ex: "\<forall>f\<in>set [''A.der'', ''B.der'']. filesys pending_world f \<noteq> None"
    by code_simp
  have jd: "\<forall>f\<in>set [''A.der'', ''B.der'']. judged uefi_externals pending_world True f"
    by code_simp
  have some: "\<exists>f\<in>set [''A.der'', ''B.der'']. eligible uefi_externals pending_world True f"
    by code_simp
  have prior: "efivars pending_world (if True then ''MokNew'' else ''MokDel'', ShimLock) = Some ?old"
    by code_simp
  have tag: "efivars pending_world (if True then ''MokAuth'' else ''MokDelAuth'', ShimLock) = Some ?tag"
    by code_simp
  have ltag: "length ?tag = 32"
    by code_simp
  have wrong: "\<forall>x\<in>set [0..<3]. wrong_guess uefi_externals ?old ?tag
                         (tty pending_world (tty_pos pending_world + x))"
    by code_simp
  have p: "tty_pos pending_world = 0" "printed pending_world = []"
    by (simp_all add: pending_world_def two_files_world_def db_world_def quiet_world_def)
  from wrong_guesses_abort[OF ct sha ex jd some prior tag ltag wrong]
  show ?thesis by (simp add: p)
qed

text \<open>
  C2.  The claim is that three failed attempts at the old password end the operation
  with a result other than 0 and an unchanged variable store.  An attempt also fails
  when the line is shorter than 8 or longer than 16 characters.  After such a line
  \<^verbatim>\<open>verify_old_req\<close> frees the line and keeps the pointer, and the next attempt reads
  the next line through it: with an operator who types \<open>short\<close> the run does not reach
  its third attempt, it ends in a use of freed memory.
\<close>

theorem invalid_old_password_is_used_after_free:
  "faults (issue_mok_request uefi_externals (Some [''A.der'', ''B.der'']) True hasty_world)
     UseAfterFree"
  by code_simp


section \<open>What a successful request commits\<close>

lemma key_read_small: "length (file_contents w f) < 2 ^ 32 \<Longrightarrow> key_read w f = file_contents w f"
  by (simp add: key_read_def file_size32_def unat_of_nat)




lemma request_bytes_contents:
  assumes "\<forall>f\<in>set fs. length (file_contents w f) < 2 ^ 32"
  shows "request_bytes e w import fs =
           concat (map (\<lambda>f. x509_list e (file_contents w f)) (filter (eligible e w import) fs))"
  using assms by (induction fs) (simp_all add: request_bytes_def key_read_small)






text \<open>
  A request of 2 GiB or more.  \<^verbatim>\<open>update_request\<close> takes the size of the request as an
  \<^verbatim>\<open>int\<close>.  The size of a request for two keys of \<open>2\<^sup>3\<^sup>0\<close> bytes each,
  \<open>2\<^sup>3\<^sup>1 + 88\<close>, arrives there as a negative number and becomes a size near
  \<open>2\<^sup>6\<^sup>4\<close> at the call of \<^verbatim>\<open>generate_auth\<close>: the digest reads past the end of the
  buffer.
\<close>

lemma collect_request_length:
  assumes ct: "length (EfiCertX509Guid e) = 16"
    and ex: "\<forall>f\<in>set fs. filesys w f \<noteq> None"
    and jd: "\<forall>f\<in>set fs. judged e w import f"
    and cr: "collect_request e fs import w = Some (Inr (w', Some (buf, n)))"
  shows "length buf =
           (\<Sum>f\<leftarrow>fs. length (file_contents w f)) + 44 * length fs +
           (case efivars w (if import then ''MokNew'' else ''MokDel'', ShimLock) of
              None \<Rightarrow> 0 | Some old \<Rightarrow> length old)"
proof -
  define N where "N = (\<Sum>f\<leftarrow>fs. length (file_contents w f)) + sizeof_EFI_SIGNATURE_LIST * length fs
                       + sizeof_efi_guid_t * length fs +
                       (case read_variable w (if import then ''MokNew'' else ''MokDel'') ShimLock of
                          None \<Rightarrow> 0 | Some old \<Rightarrow> length old)"
  have room: "0 + (\<Sum>f\<leftarrow>fs. 44 + unat (file_size32 w f)) \<le> length (malloc w N)"
    using room_for_all[where fs = fs and w = w]
    by (simp add: length_malloc N_def sizeof_EFI_SIGNATURE_LIST_def sizeof_efi_guid_t_def)
  from fill_loop_run[OF ct ex jd room, of 0]
  obtain buf' where
    run: "fill_loop e import (map (\<lambda>f. (f, file_size32 w f)) fs) (malloc w N) 0 0 w =
            Some (Inr (w\<lparr>printed := printed w @ notices e w import fs\<rparr>,
                       Some (buf', 0 + length (request_bytes e w import fs))))"
    and len: "length buf' = length (malloc w N)"
    by blast
  have "collect_request e fs import w =
          fill_loop e import (map (\<lambda>f. (f, file_size32 w f)) fs) (malloc w N) 0 0 w"
    unfolding collect_request_def
    by (simp add: stat_loop_run[OF ex] zip_map_self Let_def N_def)
  with cr run have "buf = buf'" by simp
  with len show ?thesis
    by (simp add: length_malloc N_def read_variable_def sizeof_EFI_SIGNATURE_LIST_def
          sizeof_efi_guid_t_def)
qed

lemma request_of_two_gib_faults:
  "faults (issue_mok_request uefi_externals (Some [''A.der'', ''B.der'']) True two_gib_world)
     (ReadPastEnd 2147483736)"
proof -
  let ?e = uefi_externals and ?w = two_gib_world and ?fs = "[''A.der'', ''B.der'']"
  define A where "A = replicate 1073741824 (1 :: byte)"
  define B where "B = replicate 1073741824 (2 :: byte)"
  have lA: "length A = 1073741824" and lB: "length B = 1073741824"
    by (simp_all add: A_def B_def)
  have ct: "length (EfiCertX509Guid ?e) = 16" by code_simp
  have ev: "efivars ?w = Map.empty"
    by (simp add: two_gib_world_def quiet_world_def)
  have fsA: "filesys ?w ''A.der'' = Some A" and fsB: "filesys ?w ''B.der'' = Some B"
    by (simp_all add: two_gib_world_def A_def B_def)
  have fc: "file_contents ?w ''A.der'' = A" "file_contents ?w ''B.der'' = B"
    by (simp_all add: file_contents_def fsA fsB)
  have el: "eligible ?e ?w True f" for f
    by (simp add: eligible_def is_valid_request_no_vars[OF ev])
  have ex: "\<forall>f\<in>set ?fs. filesys ?w f \<noteq> None" using fsA fsB by simp
  have jd: "\<forall>f\<in>set ?fs. judged ?e ?w True f" using el eligible_judged by simp
  have kr: "key_read ?w ''A.der'' = A" "key_read ?w ''B.der'' = B"
    by (simp_all add: key_read_small fc lA lB)
  have lrb: "length (request_bytes ?e ?w True ?fs) = 2147483736"
    using el by (simp add: request_bytes_def kr length_x509_list[OF ct] lA lB)
  define w1 where "w1 = ?w\<lparr>printed := printed ?w @ notices ?e ?w True ?fs\<rparr>"
  from collect_request_run[OF ct ex jd] obtain buf
    where cr: "collect_request ?e ?fs True ?w = Some (Inr (w1, Some (buf, 2147483736)))"
    unfolding lrb w1_def by blast
  from collect_request_length[OF ct ex jd cr]
  have lbuf: "length buf = 2147483736"
    by (simp add: fc lA lB ev)
  have io: "int_of_ulong 2147483736 = - 2147483560"
    by (simp add: int_of_ulong_def)
  have uo: "ulong_of_int (- 2147483560) = 18446744071562068056"
    by (simp add: ulong_of_int_def)
  have tw: "tty w1 = (\<lambda>n. ''password1'')" "tty_pos w1 = 0"
    by (simp_all add: w1_def two_gib_world_def quiet_world_def)
  have "chooses w1 (tty_pos w1) 0 0 ''password1''"
    by (simp add: chooses_def tw acceptable_def repeats_def PASSWORD_MIN_def PASSWORD_MAX_def)
  from get_password_chooses[OF this] obtain w2 where
    gp: "get_password PASSWORD_MIN PASSWORD_MAX w1 = (Some (''password1'', 9), w2)"
    by auto
  have ga: "generate_auth ?e (Some buf) 18446744071562068056 (Some ''password1'') 9 auth =
              Inl (ReadPastEnd 2147483736)" for auth
    by (simp add: generate_auth_def SHA256_Update_def SHA256_Init_def read_bytes_def lbuf
          split: prod.splits)
  have up: "update_request ?e (Some buf) (- 2147483560) True w1 = Inl (ReadPastEnd 2147483736)"
    by (simp add: update_request_def gp uo ga)
  have "commit_request ?e True None buf 2147483736 w1 = Inl (ReadPastEnd 2147483736)"
    by (simp add: commit_request_def io up)
  then have "issue_mok_request ?e (Some ?fs) True ?w = Some (Inl (ReadPastEnd 2147483736))"
    using cr ev by (simp add: issue_mok_request_def read_variable_def)
  then show ?thesis by (simp add: faults_def)
qed

section \<open>Encoding, then decoding\<close>

lemma x509_fields:
  assumes ct: "length (EfiCertX509Guid e) = 16"
  shows "SignatureType (pre @ x509_list e key @ post) (length pre) = Inr (EfiCertX509Guid e)"
    and "SignatureListSize (pre @ x509_list e key @ post) (length pre) = Inr (word_of_nat (length key) + 44)"
    and "SignatureHeaderSize (pre @ x509_list e key @ post) (length pre) = Inr 0"
    and "SignatureSize (pre @ x509_list e key @ post) (length pre) = Inr (word_of_nat (length key) + 16)"
proof -
  have l: "length (x509_list e key) = 44 + length key" using ct by (rule length_x509_list)
  have r: "k + n \<le> 44 \<Longrightarrow> read_bytes (pre @ x509_list e key @ post) (length pre + k) n
             = Inr (take n (drop k (x509_list e key)))" for k n
    using l by (intro read_bytes_middle) simp
  show "SignatureType (pre @ x509_list e key @ post) (length pre) = Inr (EfiCertX509Guid e)"
    using r[of 0 16] ct by (simp add: SignatureType_def sizeof_efi_guid_t_def x509_list_def)
  show "SignatureListSize (pre @ x509_list e key @ post) (length pre) = Inr (word_of_nat (length key) + 44)"
    using r[of 16 4] ct
    by (simp add: SignatureListSize_def read_u32_def x509_list_def length_put_le32 le32_put_le32)
  show "SignatureHeaderSize (pre @ x509_list e key @ post) (length pre) = Inr 0"
    using r[of 20 4] ct
    by (simp add: SignatureHeaderSize_def read_u32_def x509_list_def length_put_le32 le32_put_le32)
  show "SignatureSize (pre @ x509_list e key @ post) (length pre) = Inr (word_of_nat (length key) + 16)"
    using r[of 24 4] ct
    by (simp add: SignatureSize_def read_u32_def x509_list_def length_put_le32 le32_put_le32)
qed

lemma mok_pass_x509:
  assumes ct: "length (EfiCertX509Guid e) = 16"
    and ne: "EfiCertX509Guid e \<noteq> EfiHashSha256Guid e"
    and s: "0 < s" "unat (word_of_nat (length key) + 44 :: 32 word) \<le> s"
  shows "mok_pass (EfiCertX509Guid e) (EfiHashSha256Guid e) (pre @ x509_list e key @ post)
           (length pre) s =
         Inr (Advance (Some \<lparr>mok_size = word_of_nat (length key), mok = length pre + 44\<rparr>)
                (unat (word_of_nat (length key) + 44 :: 32 word)))"
  using s ne
  by (simp add: mok_pass_def add_entry_def x509_fields[OF ct]
        sizeof_EFI_SIGNATURE_LIST_def sizeof_efi_guid_t_def)

lemma length_concat_x509:
  assumes "length (EfiCertX509Guid e) = 16"
  shows "length (concat (map (x509_list e) keys)) = (\<Sum>key\<leftarrow>keys. 44 + length key)"
  using assms by (induction keys) (simp_all add: length_x509_list)

lemma mok_loop_x509:
  assumes ct: "length (EfiCertX509Guid e) = 16"
    and ne: "EfiCertX509Guid e \<noteq> EfiHashSha256Guid e"
    and small: "\<forall>key\<in>set keys. length key + 44 < 2 ^ 32"
  shows "mok_loop (EfiCertX509Guid e) (EfiHashSha256Guid e) (pre @ concat (map (x509_list e) keys))
           (length pre) (length (concat (map (x509_list e) keys))) acc =
         Some (Inr (acc @ nodes_at (length pre) keys))"
  using small
proof (induction keys arbitrary: pre acc)
  case Nil
  show ?case
    by (subst mok_loop.simps) (simp add: mok_pass_def)
next
  case (Cons key keys)
  let ?ct = "EfiCertX509Guid e" and ?ht = "EfiHashSha256Guid e"
  let ?rest = "concat (map (x509_list e) keys)"
  let ?data = "pre @ x509_list e key @ ?rest"
  have k: "length key + 44 < 2 ^ 32" using Cons.prems by simp
  then have u: "unat (word_of_nat (length key) + 44 :: 32 word) = 44 + length key"
    by (simp add: unat_word_ariths unat_of_nat)
  have lr: "length (x509_list e key) = 44 + length key" using ct by (rule length_x509_list)
  have pass: "mok_pass ?ct ?ht ?data (length pre) (length (x509_list e key @ ?rest)) =
         Inr (Advance (Some \<lparr>mok_size = word_of_nat (length key), mok = length pre + 44\<rparr>)
                (44 + length key))"
    using mok_pass_x509[OF ct ne, of "length (x509_list e key @ ?rest)" key pre ?rest] lr
    by (simp add: u)
  have IH: "mok_loop ?ct ?ht ((pre @ x509_list e key) @ ?rest) (length (pre @ x509_list e key))
              (length ?rest) (acc @ [\<lparr>mok_size = word_of_nat (length key), mok = length pre + 44\<rparr>]) =
            Some (Inr ((acc @ [\<lparr>mok_size = word_of_nat (length key), mok = length pre + 44\<rparr>])
                       @ nodes_at (length (pre @ x509_list e key)) keys))"
    using Cons.prems by (intro Cons.IH) simp
  have "mok_loop ?ct ?ht ?data (length pre) (length (x509_list e key @ ?rest)) acc =
        mok_loop ?ct ?ht ?data (length pre + (44 + length key))
          (length (x509_list e key @ ?rest) - (44 + length key))
          (acc @ [\<lparr>mok_size = word_of_nat (length key), mok = length pre + 44\<rparr>])"
    by (subst mok_loop.simps) (simp only: pass sum.case pass.case option.case)
  also have "\<dots> = Some (Inr (acc @ nodes_at (length pre) (key # keys)))"
    using IH lr by (simp add: add.assoc)
  finally show ?case by simp
qed

lemma read_keys_x509:
  assumes ct: "length (EfiCertX509Guid e) = 16"
    and small: "\<forall>key\<in>set keys. length key + 44 < 2 ^ 32"
  shows "read_keys (pre @ concat (map (x509_list e) keys)) (nodes_at (length pre) keys) = Inr keys"
  using small
proof (induction keys arbitrary: pre)
  case Nil
  show ?case by simp
next
  case (Cons key keys)
  let ?rest = "concat (map (x509_list e) keys)"
  have k: "length key < 2 ^ 32" using Cons.prems by simp
  then have u: "unat (word_of_nat (length key) :: 32 word) = length key"
    by (simp add: unat_of_nat)
  have lr: "length (x509_list e key) = 44 + length key" using ct by (rule length_x509_list)
  have "read_bytes (pre @ x509_list e key @ ?rest) (length pre + 44) (length key)
          = Inr (take (length key) (drop 44 (x509_list e key)))"
    using lr by (intro read_bytes_middle) simp
  also have "drop 44 (x509_list e key) = key"
    using ct by (simp add: x509_list_def length_put_le32 length_SHIM_LOCK_GUID)
  finally have md: "mok_data (pre @ x509_list e key @ ?rest)
                      \<lparr>mok_size = word_of_nat (length key), mok = length pre + 44\<rparr> = Inr key"
    by (simp add: mok_data_def u)
  have IH: "read_keys ((pre @ x509_list e key) @ ?rest) (nodes_at (length (pre @ x509_list e key)) keys)
              = Inr keys"
    using Cons.prems by (intro Cons.IH) simp
  show ?case
    using md IH lr by (simp add: add.assoc)
qed


text \<open>
  For every sequence of key files, each eligible and each no longer than the
  \<open>0x7ffff000\<close> bytes that one call of \<^verbatim>\<open>read\<close> transfers, the decoder finds in the
  buffer that the request builder has filled exactly the keys of the files, byte for byte
  and in the same order.
\<close>

lemma round_trip_keys:
  assumes ct: "length (EfiCertX509Guid e) = 16"
    and ne: "EfiCertX509Guid e \<noteq> EfiHashSha256Guid e"
    and ex: "\<forall>f\<in>set fs. filesys w f \<noteq> None"
    and el: "\<forall>f\<in>set fs. eligible e w import f"
    and small: "\<forall>f\<in>set fs. length (file_contents w f) \<le> 0x7ffff000"
  shows "round_trip e fs import w = Some (Inr (Some (map (file_contents w) fs)))"
proof -
  let ?keys = "map (file_contents w) fs"
  have jd: "\<forall>f\<in>set fs. judged e w import f" using el eligible_judged by blast
  have "\<forall>f\<in>set fs. length (file_contents w f) < 2 ^ 32" using small by fastforce
  from request_bytes_contents[OF this, of e import] el
  have rb: "request_bytes e w import fs = concat (map (x509_list e) ?keys)"
    by (simp add: comp_def)
  from collect_request_run[OF ct ex jd] obtain buf w1
    where cr: "collect_request e fs import w =
                 Some (Inr (w1, Some (buf, length (request_bytes e w import fs))))"
      and tk: "take (length (request_bytes e w import fs)) buf = request_bytes e w import fs"
    by blast
  have sm: "\<forall>key\<in>set ?keys. length key + 44 < 2 ^ 32" using small by fastforce
  have dec: "build_mok_list (EfiCertX509Guid e) (EfiHashSha256Guid e)
               (concat (map (x509_list e) ?keys)) (length (concat (map (x509_list e) ?keys)))
             = Some (Inr (nodes_at 0 ?keys))"
    unfolding build_mok_list_def
    using mok_loop_x509[OF ct ne sm, of "[]" "[]"] by simp
  have rk: "read_keys (concat (map (x509_list e) ?keys)) (nodes_at 0 ?keys) = Inr ?keys"
    using read_keys_x509[OF ct sm, of "[]"] by simp
  note cr' = cr[unfolded rb] and tk' = tk[unfolded rb]
  show ?thesis
    unfolding round_trip_def cr'
    by (simp only: option.case sum.case prod.case tk' dec rk)
qed

text \<open>So it is for the two fresh key files.\<close>

lemma round_trip_keys_example:
  "round_trip uefi_externals [''A.der'', ''B.der''] True fresh_files_world =
     Some (Inr (Some [[1, 2, 3], [4, 5, 6]]))"
proof -
  let ?e = uefi_externals and ?w = fresh_files_world and ?fs = "[''A.der'', ''B.der'']"
  have ct: "length (EfiCertX509Guid ?e) = 16" by code_simp
  have ne: "EfiCertX509Guid ?e \<noteq> EfiHashSha256Guid ?e" by code_simp
  have ex: "\<forall>f\<in>set ?fs. filesys ?w f \<noteq> None" by code_simp
  have el: "\<forall>f\<in>set ?fs. eligible ?e ?w True f" by code_simp
  have "\<forall>f\<in>set ?fs. length (file_contents ?w f) = 3" by code_simp
  then have small: "\<forall>f\<in>set ?fs. length (file_contents ?w f) \<le> 0x7ffff000" by simp
  have fc: "map (file_contents ?w) ?fs = [[1, 2, 3], [4, 5, 6]]" by code_simp
  from round_trip_keys[OF ct ne ex el small] show ?thesis
    unfolding fc .
qed

text \<open>
  C3.  The claim is that decoding what was encoded gives back every key, byte for byte.
  The request builder keeps the size of a file in 32 bits (\<^verbatim>\<open>sizes[i]\<close>) while it sums
  the full sizes for the allocation: of a key file of \<open>2\<^sup>3\<^sup>2 + 3\<close> bytes it reads and
  encodes the first three bytes, and the decoder returns a key of three bytes.
\<close>

theorem huge_key_is_cut:
  "round_trip uefi_externals [''huge.der''] True huge_file_world = Some (Inr (Some [[1, 2, 3]])) \<and>
   length (file_contents huge_file_world ''huge.der'') = 4294967299"
proof -
  let ?e = uefi_externals and ?w = huge_file_world
  let ?ct = "EfiCertX509Guid ?e" and ?ht = "EfiHashSha256Guid ?e"
  define K where "K = [1, 2, 3] @ replicate 4294967296 (0 :: byte)"
  have lK: "length K = 4294967299" by (simp add: K_def)
  have ct: "length ?ct = 16" by code_simp
  have ne: "?ct \<noteq> ?ht" by code_simp
  have ev: "efivars ?w = Map.empty"
    by (simp add: huge_file_world_def quiet_world_def)
  have fs: "filesys ?w ''huge.der'' = Some K"
    by (simp add: huge_file_world_def K_def)
  have fc: "file_contents ?w ''huge.der'' = K"
    by (simp add: file_contents_def fs)
  have sz: "file_size32 ?w ''huge.der'' = 3"
    by (simp add: file_size32_def fc lK)
  have kr: "key_read ?w ''huge.der'' = [1, 2, 3]"
    by (simp add: key_read_def fc sz K_def)
  have el: "eligible ?e ?w True ''huge.der''"
    by (simp add: eligible_def is_valid_request_no_vars[OF ev])
  have ex: "\<forall>f\<in>set [''huge.der'']. filesys ?w f \<noteq> None" using fs by simp
  have jd: "\<forall>f\<in>set [''huge.der'']. judged ?e ?w True f" using el eligible_judged by simp
  have rb: "request_bytes ?e ?w True [''huge.der''] = concat (map (x509_list ?e) [[1, 2, 3]])"
    using el by (simp add: request_bytes_def kr)
  from collect_request_run[OF ct ex jd] obtain buf w1
    where cr: "collect_request ?e [''huge.der''] True ?w =
                 Some (Inr (w1, Some (buf, length (concat (map (x509_list ?e) [[1, 2, 3 :: byte]])))))"
      and tk: "take (length (concat (map (x509_list ?e) [[1, 2, 3 :: byte]]))) buf =
                 concat (map (x509_list ?e) [[1, 2, 3]])"
    unfolding rb by blast
  have sm: "\<forall>key\<in>set [[1, 2, 3 :: byte]]. length key + 44 < 2 ^ 32" by simp
  have dec: "build_mok_list ?ct ?ht (concat (map (x509_list ?e) [[1, 2, 3]]))
               (length (concat (map (x509_list ?e) [[1, 2, 3 :: byte]]))) =
             Some (Inr (nodes_at 0 [[1, 2, 3]]))"
    unfolding build_mok_list_def
    using mok_loop_x509[OF ct ne sm, of "[]" "[]"] by simp
  have rk: "read_keys (concat (map (x509_list ?e) [[1, 2, 3]])) (nodes_at 0 [[1, 2, 3]]) =
              Inr [[1, 2, 3]]"
    using read_keys_x509[OF ct sm, of "[]"] by simp
  have "round_trip ?e [''huge.der''] True ?w = Some (Inr (Some [[1, 2, 3]]))"
    unfolding round_trip_def cr
    by (simp only: option.case sum.case prod.case tk dec rk)
  with fc lK show ?thesis by simp
qed

end
